theory Spec2Isabelle
  imports Main
begin

section \<open>Knot diagrams from planar-diagram codes\<close>

text \<open>
  A shallow embedding of the class \<open>Knot\<close> and of \<open>generate_knot_pair\<close>.
  Arc identifiers are Python integers (\<open>int\<close>), a crossing is a Python tuple
  (a list of any length: nothing in the program checks that it has four entries), and a
  PD code is the list of its crossings.  Exceptions are values of the type \<open>error\<close>.
\<close>

datatype error = IndexError | NetworkXError | KeyError | ValueError

type_synonym crossing = "int list"
type_synonym pd_code = "crossing list"

subsection \<open>The graph library\<close>

text \<open>
  \<open>nx.Graph\<close> keeps a dictionary from each node to the dictionary of its neighbours;
  both keep insertion order.  The model is the association list of the nodes, in
  insertion order, each with the list of its neighbours in insertion order.  Edge and node
  attributes are never used by the program and are left out.
\<close>

type_synonym graph = "(int \<times> int list) list"

definition nodes :: "graph \<Rightarrow> int list" where
  "nodes g = map fst g"

definition has_node :: "graph \<Rightarrow> int \<Rightarrow> bool" where
  "has_node g n = (n \<in> set (nodes g))"

definition add_node :: "graph \<Rightarrow> int \<Rightarrow> graph" where
  "add_node g n = (if has_node g n then g else g @ [(n, [])])"

definition add_nodes_from :: "graph \<Rightarrow> int list \<Rightarrow> graph" where
  "add_nodes_from g ns = fold (\<lambda>n h. add_node h n) ns g"

text \<open>\<open>adj[u][v] = data\<close>: a new key goes to the end, an old key keeps its place.\<close>

definition put_nbr :: "int \<Rightarrow> int list \<Rightarrow> int list" where
  "put_nbr v ns = (if v \<in> set ns then ns else ns @ [v])"

definition set_adj :: "graph \<Rightarrow> int \<Rightarrow> int \<Rightarrow> graph" where
  "set_adj g u v = map (\<lambda>(k, ns). if k = u then (k, put_nbr v ns) else (k, ns)) g"

definition add_edge :: "graph \<Rightarrow> int \<Rightarrow> int \<Rightarrow> graph" where
  "add_edge g u v = set_adj (set_adj (add_node (add_node g u) v) u v) v u"

text \<open>\<open>G.neighbors(n)\<close> raises \<open>NetworkXError\<close> for a node that is not in the graph.\<close>

definition neighbors :: "graph \<Rightarrow> int \<Rightarrow> error + int list" where
  "neighbors g n = (case map_of g n of None \<Rightarrow> Inl NetworkXError | Some ns \<Rightarrow> Inr ns)"

subsection \<open>Python tuples and sets\<close>

definition item :: "'a list \<Rightarrow> nat \<Rightarrow> error + 'a" where
  "item xs i = (if i < length xs then Inr (xs ! i) else Inl IndexError)"

definition bind :: "error + 'a \<Rightarrow> ('a \<Rightarrow> error + 'b) \<Rightarrow> error + 'b" where
  "bind m f = (case m of Inl e \<Rightarrow> Inl e | Inr x \<Rightarrow> f x)"

text \<open>
  A Python set is modelled by the list of its elements in the order of their first
  insertion.  The order in which Python iterates over a set is left to the implementation:
  it is a parameter \<open>ord\<close> of the model, which maps the elements in insertion order to
  the elements in iteration order.  \<open>set_iteration ord\<close> says that iterating yields each
  element once.
\<close>

definition set_add :: "int list \<Rightarrow> int \<Rightarrow> int list" where
  "set_add s a = (if a \<in> set s then s else s @ [a])"

definition set_iteration :: "(int list \<Rightarrow> int list) \<Rightarrow> bool" where
  "set_iteration ord = (\<forall>xs. distinct xs \<longrightarrow> distinct (ord xs) \<and> set (ord xs) = set xs)"

subsection \<open>\<open>Knot.build_graph\<close>\<close>

definition all_arcs :: "pd_code \<Rightarrow> int list" where
  "all_arcs pd = fold (\<lambda>cross s. fold (\<lambda>arc t. set_add t arc) cross s) pd []"

definition edge_at :: "crossing \<Rightarrow> nat \<Rightarrow> nat \<Rightarrow> graph \<Rightarrow> error + graph" where
  "edge_at cross i j g =
     bind (item cross i) (\<lambda>u. bind (item cross j) (\<lambda>v. Inr (add_edge g u v)))"

definition add_crossing :: "graph \<Rightarrow> crossing \<Rightarrow> error + graph" where
  "add_crossing g cross =
     bind (edge_at cross 0 1 g) (\<lambda>g1.
     bind (edge_at cross 1 2 g1) (\<lambda>g2.
     bind (edge_at cross 2 3 g2) (\<lambda>g3.
     bind (edge_at cross 3 0 g3) (\<lambda>g4.
     bind (edge_at cross 0 2 g4) (\<lambda>g5.
     edge_at cross 1 3 g5)))))"

fun add_crossings :: "graph \<Rightarrow> pd_code \<Rightarrow> error + graph" where
  "add_crossings g [] = Inr g"
| "add_crossings g (cross # rest) =
     (case add_crossing g cross of Inl e \<Rightarrow> Inl e | Inr g' \<Rightarrow> add_crossings g' rest)"

definition build_graph :: "(int list \<Rightarrow> int list) \<Rightarrow> pd_code \<Rightarrow> error + graph" where
  "build_graph ord pd = add_crossings (add_nodes_from [] (ord (all_arcs pd))) pd"

subsection \<open>\<open>Knot.trace_path\<close>\<close>

text \<open>
  The \<open>while True\<close> loop.  \<open>visited\<close> is a set that is only tested for membership.
  The loop ends: every round puts one more identifier of the graph into \<open>visited\<close>.
\<close>

definition graph_ids :: "graph \<Rightarrow> int set" where
  "graph_ids g = set (nodes g) \<union> (\<Union>(k, ns) \<in> set g. set ns)"

function walk :: "graph \<Rightarrow> int set \<Rightarrow> int list \<Rightarrow> int \<Rightarrow> error + int list" where
  "walk g visited path current =
     (case neighbors g current of
        Inl e \<Rightarrow> Inl e
      | Inr nbrs \<Rightarrow>
          (case filter (\<lambda>n. n \<notin> visited) nbrs of
             [] \<Rightarrow> Inr path
           | next_arc # _ \<Rightarrow> walk g (insert next_arc visited) (path @ [next_arc]) next_arc))"
  by pat_completeness auto

lemma neighbors_ids: "neighbors g c = Inr ns \<Longrightarrow> set ns \<subseteq> graph_ids g"
  by (auto simp: neighbors_def graph_ids_def split: option.splits dest!: map_of_SomeD)

lemma finite_graph_ids: "finite (graph_ids g)"
  by (auto simp: graph_ids_def)

termination walk
proof (relation "measure (\<lambda>(g, visited, path, current). card (graph_ids g - visited))")
  show "wf (measure (\<lambda>(g, visited, path, current). card (graph_ids g - visited)))"
    by simp
next
  fix g :: graph and visited :: "int set" and path :: "int list" and current :: int
    and nbrs :: "int list" and next_arc :: int and rest :: "int list"
  assume n: "neighbors g current = Inr nbrs"
    and f: "filter (\<lambda>n. n \<notin> visited) nbrs = next_arc # rest"
  from f have "next_arc \<in> set (filter (\<lambda>n. n \<notin> visited) nbrs)"
    by simp
  then have mem: "next_arc \<in> set nbrs" and new: "next_arc \<notin> visited"
    by auto
  from mem n have "next_arc \<in> graph_ids g"
    using neighbors_ids by blast
  with new have "graph_ids g - insert next_arc visited \<subset> graph_ids g - visited"
    by blast
  then have "card (graph_ids g - insert next_arc visited) < card (graph_ids g - visited)"
    by (intro psubset_card_mono) (simp_all add: finite_graph_ids)
  then show "((g, insert next_arc visited, path @ [next_arc], next_arc),
              (g, visited, path, current))
             \<in> measure (\<lambda>(g, visited, path, current). card (graph_ids g - visited))"
    by simp
qed

declare walk.simps [simp del]

definition close_path :: "graph \<Rightarrow> int list \<Rightarrow> error + int list" where
  "close_path g path =
     bind (neighbors g (last path)) (\<lambda>nbrs.
       Inr (if hd path \<in> set nbrs then path @ [hd path] else path))"

definition trace_path :: "graph \<Rightarrow> error + int list" where
  "trace_path g =
     (case nodes g of
        [] \<Rightarrow> Inl IndexError
      | start_arc # _ \<Rightarrow> bind (walk g {start_arc} [start_arc] start_arc) (close_path g))"

subsection \<open>\<open>Knot.calculate_positions\<close>\<close>

text \<open>
  The positions are IEEE doubles computed by numpy.  The embedding has no model of
  floating-point arithmetic, so the numeric library is a parameter: \<open>linspace_2pi n\<close>
  stands for \<open>np.linspace(0, 2 * np.pi, n, endpoint=False)\<close>, \<open>np_cos\<close> and
  \<open>np_sin\<close> for \<open>np.cos\<close> and \<open>np.sin\<close>, and \<open>times_1_5 x\<close> for \<open>x * 1.5\<close>,
  over a type \<open>'f\<close> of floating-point numbers.  \<open>numpy_ok\<close> is the one fact about
  numpy that the program relies on: \<open>linspace\<close> returns as many samples as asked.
\<close>

record 'f numpy =
  linspace_2pi :: "nat \<Rightarrow> 'f list"
  np_cos :: "'f \<Rightarrow> 'f"
  np_sin :: "'f \<Rightarrow> 'f"
  times_1_5 :: "'f \<Rightarrow> 'f"

definition numpy_ok :: "'f numpy \<Rightarrow> bool" where
  "numpy_ok np = (\<forall>n. length (linspace_2pi np n) = n)"

definition calculate_positions :: "'f numpy \<Rightarrow> nat \<Rightarrow> ('f \<times> 'f) list" where
  "calculate_positions np n =
     map (\<lambda>angle. (times_1_5 np (np_cos np angle), times_1_5 np (np_sin np angle)))
       (linspace_2pi np n)"

subsection \<open>The class \<open>Knot\<close>\<close>

record 'f knot =
  name :: string
  pd_code :: pd_code
  crossings :: nat
  graph :: graph
  positions :: "('f \<times> 'f) list"
  path :: "int list"

definition Knot ::
  "(int list \<Rightarrow> int list) \<Rightarrow> 'f numpy \<Rightarrow> string \<Rightarrow> pd_code \<Rightarrow> error + 'f knot" where
  "Knot ord np nm pd =
     bind (build_graph ord pd) (\<lambda>g.
     bind (Inr (calculate_positions np (length pd))) (\<lambda>ps.
     bind (trace_path g) (\<lambda>p.
       Inr \<lparr>name = nm, pd_code = pd, crossings = length pd, graph = g,
            positions = ps, path = p\<rparr>)))"

text \<open>\<open>get_arc_position\<close>: the loop over \<open>enumerate(self.pd_code)\<close>, from index \<open>i\<close>.\<close>

fun arc_position_from ::
  "nat \<Rightarrow> pd_code \<Rightarrow> ('f \<times> 'f) list \<Rightarrow> int \<Rightarrow> error + ('f \<times> 'f) option" where
  "arc_position_from i [] ps arc = Inr None"
| "arc_position_from i (cross # rest) ps arc =
     (if arc \<in> set cross then bind (item ps i) (\<lambda>pos. Inr (Some pos))
      else arc_position_from (Suc i) rest ps arc)"

definition get_arc_position :: "'f knot \<Rightarrow> int \<Rightarrow> error + ('f \<times> 'f) option" where
  "get_arc_position k arc = arc_position_from 0 (pd_code k) (positions k) arc"

text \<open>
  The point sequence that \<open>draw\<close> builds before it renders.  A position is a tuple of
  two numbers, which Python takes as true, so \<open>if pos\<close> skips exactly \<open>None\<close>.
\<close>

fun collect_points :: "'f knot \<Rightarrow> int list \<Rightarrow> error + ('f \<times> 'f) list" where
  "collect_points k [] = Inr []"
| "collect_points k (arc # rest) =
     bind (get_arc_position k arc) (\<lambda>pos.
     bind (collect_points k rest) (\<lambda>points.
       Inr (case pos of None \<Rightarrow> points | Some p \<Rightarrow> p # points)))"

definition draw_points :: "'f knot \<Rightarrow> error + ('f \<times> 'f) list" where
  "draw_points k = collect_points k (path k)"

subsection \<open>The dataset and \<open>generate_knot_pair\<close>\<close>

text \<open>
  Names are Python strings; the subscript digits of five names lie outside ASCII and are
  written as the three bytes of their UTF-8 encoding.
\<close>

definition sub_digit :: "nat \<Rightarrow> string" where
  "sub_digit d = [CHR 0xE2, CHR 0x82, char_of (0x80 + d)]"

definition KNOT_DEFINITIONS :: "(string \<times> pd_code) list" where
  "KNOT_DEFINITIONS =
    [(''Unknot'', [[1, 2, 3, 4]]),
     (''Trefoil'', [[1, 2, 3, 4], [5, 6, 7, 8], [9, 10, 11, 12]]),
     (''FigureEight'', [[1, 2, 3, 4], [5, 6, 7, 8], [9, 10, 11, 12], [13, 14, 15, 16]]),
     (''Cinquefoil'', [[1, 2, 3, 4], [5, 6, 7, 8], [9, 10, 11, 12],
                       [13, 14, 15, 16], [17, 18, 19, 20]]),
     (''6'' @ sub_digit 1, [[1, 2, 3, 4], [5, 6, 7, 8], [9, 10, 11, 12],
                       [13, 14, 15, 16], [17, 18, 19, 20], [21, 22, 23, 24]]),
     (''7'' @ sub_digit 4, [[1, 2, 3, 4], [5, 6, 7, 8], [9, 10, 11, 12],
                       [13, 14, 15, 16], [17, 18, 19, 20], [21, 22, 23, 24],
                       [25, 26, 27, 28]]),
     (''8'' @ sub_digit 1 @ sub_digit 9, [[1, 2, 3, 4], [5, 6, 7, 8], [9, 10, 11, 12],
                       [13, 14, 15, 16], [17, 18, 19, 20], [21, 22, 23, 24],
                       [25, 26, 27, 28], [29, 30, 31, 32]]),
     (''9'' @ sub_digit 4 @ sub_digit 2, [[1, 2, 3, 4], [5, 6, 7, 8], [9, 10, 11, 12],
                       [13, 14, 15, 16], [17, 18, 19, 20], [21, 22, 23, 24],
                       [25, 26, 27, 28], [29, 30, 31, 32], [33, 34, 35, 36]]),
     (''10'' @ sub_digit 1 @ sub_digit 6 @ sub_digit 1,
                      [[1, 2, 3, 4], [5, 6, 7, 8], [9, 10, 11, 12],
                       [13, 14, 15, 16], [17, 18, 19, 20], [21, 22, 23, 24],
                       [25, 26, 27, 28], [29, 30, 31, 32], [33, 34, 35, 36],
                       [37, 38, 39, 40]])]"

text \<open>\<open>list.remove(x)\<close> removes the first \<open>x\<close> and raises \<open>ValueError\<close> without one.\<close>

definition list_remove :: "'a list \<Rightarrow> 'a \<Rightarrow> error + 'a list" where
  "list_remove xs x = (if x \<in> set xs then Inr (remove1 x xs) else Inl ValueError)"

definition dict_get :: "('k \<times> 'v) list \<Rightarrow> 'k \<Rightarrow> error + 'v" where
  "dict_get d k = (case map_of d k of None \<Rightarrow> Inl KeyError | Some v \<Rightarrow> Inr v)"

text \<open>
  The random draws are parameters: \<open>random.choice(xs)\<close> returns \<open>xs[i]\<close> for a drawn
  index \<open>i\<close> below \<open>len(xs)\<close>, and \<open>random.sample(xs, 2)\<close> returns \<open>[xs[i], xs[j]]\<close> for
  two drawn indices \<open>i \<noteq> j\<close> below \<open>len(xs)\<close>.  \<open>legal_draws\<close> says that the three
  draws of \<open>generate_knot_pair\<close> are such indices: the list \<open>knot_types\<close> has one
  name less than the dataset.
\<close>

record draws =
  drawn_equivalent :: nat
  drawn_type :: nat
  drawn_sample :: "nat \<times> nat"

definition choice :: "'a list \<Rightarrow> nat \<Rightarrow> error + 'a" where
  "choice xs i = item xs i"

definition sample2 :: "'a list \<Rightarrow> nat \<times> nat \<Rightarrow> error + 'a \<times> 'a" where
  "sample2 xs ij =
     (if length xs < 2 then Inl ValueError
      else bind (item xs (fst ij)) (\<lambda>a. bind (item xs (snd ij)) (\<lambda>b. Inr (a, b))))"

definition legal_draws :: "draws \<Rightarrow> bool" where
  "legal_draws d =
     (let n = length KNOT_DEFINITIONS - 1 in
      drawn_equivalent d < 2 \<and> drawn_type d < n \<and>
      fst (drawn_sample d) < n \<and> snd (drawn_sample d) < n \<and>
      fst (drawn_sample d) \<noteq> snd (drawn_sample d))"

definition generate_knot_pair ::
  "(int list \<Rightarrow> int list) \<Rightarrow> 'f numpy \<Rightarrow> draws \<Rightarrow> error + 'f knot \<times> 'f knot \<times> bool" where
  "generate_knot_pair ord np d =
     bind (list_remove (map fst KNOT_DEFINITIONS) ''Unknot'') (\<lambda>knot_types.
     bind (choice [True, False] (drawn_equivalent d)) (\<lambda>equivalent.
       if equivalent then
         bind (choice knot_types (drawn_type d)) (\<lambda>knot_type.
         bind (dict_get KNOT_DEFINITIONS knot_type) (\<lambda>pd1.
         bind (Knot ord np knot_type pd1) (\<lambda>knot1.
         bind (dict_get KNOT_DEFINITIONS knot_type) (\<lambda>pd2.
         bind (Knot ord np knot_type pd2) (\<lambda>knot2.
           Inr (knot1, knot2, equivalent))))))
       else
         bind (sample2 knot_types (drawn_sample d)) (\<lambda>(knot_type1, knot_type2).
         bind (dict_get KNOT_DEFINITIONS knot_type1) (\<lambda>pd1.
         bind (Knot ord np knot_type1 pd1) (\<lambda>knot1.
         bind (dict_get KNOT_DEFINITIONS knot_type2) (\<lambda>pd2.
         bind (Knot ord np knot_type2 pd2) (\<lambda>knot2.
           Inr (knot1, knot2, equivalent))))))))"

subsection \<open>Notions for stating the properties\<close>

text \<open>
  \<open>adj g u\<close> is the neighbour list of \<open>u\<close> (empty for an identifier that is no node),
  \<open>is_edge\<close> is \<open>v in G.neighbors(u)\<close> for a node \<open>u\<close>, \<open>edges\<close> is the set of
  undirected edges, \<open>crossing_edges\<close> are the six edges that the program adds for a
  crossing, and \<open>add_six\<close> is the graph after these six calls of \<open>add_edge\<close>.
  \<open>insertion_order\<close> is one admissible iteration order of a set.
\<close>

definition adj :: "graph \<Rightarrow> int \<Rightarrow> int list" where
  "adj g u = (case map_of g u of None \<Rightarrow> [] | Some ns \<Rightarrow> ns)"

definition is_edge :: "graph \<Rightarrow> int \<Rightarrow> int \<Rightarrow> bool" where
  "is_edge g u v = (case neighbors g u of Inl e \<Rightarrow> False | Inr ns \<Rightarrow> v \<in> set ns)"

definition closed_graph :: "graph \<Rightarrow> bool" where
  "closed_graph g = (\<forall>u v. v \<in> set (adj g u) \<longrightarrow> v \<in> set (nodes g))"

definition edges :: "graph \<Rightarrow> int set set" where
  "edges g = (\<Union>u \<in> set (nodes g). (\<lambda>v. {u, v}) ` set (adj g u))"

definition crossing_edges :: "crossing \<Rightarrow> int set set" where
  "crossing_edges c =
     {{c ! 0, c ! 1}, {c ! 1, c ! 2}, {c ! 2, c ! 3}, {c ! 3, c ! 0}, {c ! 0, c ! 2}, {c ! 1, c ! 3}}"

definition add_six :: "graph \<Rightarrow> crossing \<Rightarrow> graph" where
  "add_six g c =
     add_edge (add_edge (add_edge (add_edge (add_edge (add_edge g
       (c ! 0) (c ! 1)) (c ! 1) (c ! 2)) (c ! 2) (c ! 3)) (c ! 3) (c ! 0)) (c ! 0) (c ! 2))
       (c ! 1) (c ! 3)"

definition insertion_order :: "int list \<Rightarrow> int list" where
  "insertion_order xs = xs"

text \<open>
  A numeric library for the examples: its numbers are integers, the samples of
  \<open>linspace\<close> are their own indices, and the other functions return their argument.
\<close>

definition index_numpy :: "int numpy" where
  "index_numpy =
     \<lparr>linspace_2pi = (\<lambda>n. map int [0..<n]), np_cos = (\<lambda>x. x), np_sin = (\<lambda>x. x),
      times_1_5 = (\<lambda>x. x)\<rparr>"

text \<open>The list \<open>knot_types\<close> of \<open>generate_knot_pair\<close>: the names without \<open>Unknot\<close>.\<close>

definition knot_types :: "string list" where
  "knot_types = remove1 ''Unknot'' (map fst KNOT_DEFINITIONS)"

text \<open>
  The twelve ordered pairs of the six edges of a crossing, reachability along edges, and
  connectedness of a graph.
\<close>

definition crossing_pairs :: "crossing \<Rightarrow> (int \<times> int) set" where
  "crossing_pairs c =
     {(c ! 0, c ! 1), (c ! 1, c ! 0), (c ! 1, c ! 2), (c ! 2, c ! 1), (c ! 2, c ! 3),
      (c ! 3, c ! 2), (c ! 3, c ! 0), (c ! 0, c ! 3), (c ! 0, c ! 2), (c ! 2, c ! 0),
      (c ! 1, c ! 3), (c ! 3, c ! 1)}"

definition reachable :: "graph \<Rightarrow> int \<Rightarrow> int \<Rightarrow> bool" where
  "reachable g u v = ((u, v) \<in> {(a, b). is_edge g a b}\<^sup>*)"

definition connected :: "graph \<Rightarrow> bool" where
  "connected g = (\<forall>u \<in> set (nodes g). \<forall>v \<in> set (nodes g). reachable g u v)"

text \<open>
  A PD code whose crossings are 4-tuples of distinct identifiers and share no identifier.
\<close>

definition disjoint_pd :: "pd_code \<Rightarrow> bool" where
  "disjoint_pd pd = ((\<forall>c \<in> set pd. length c = 4) \<and> distinct (concat pd))"

section \<open>Properties\<close>

subsection \<open>The graph library\<close>

lemma map_of_nodes: "(map_of g k = None) = (k \<notin> set (nodes g))"
  by (simp add: nodes_def map_of_eq_None_iff)

lemma neighbors_adj:
  "neighbors g k = (if k \<in> set (nodes g) then Inr (adj g k) else Inl NetworkXError)"
  using map_of_nodes [of g k] by (auto simp: neighbors_def adj_def split: option.splits)

lemma nodes_add_node: "set (nodes (add_node g n)) = insert n (set (nodes g))"
  by (auto simp: add_node_def has_node_def nodes_def)

lemma adj_add_node: "adj (add_node g n) k = adj g k"
  by (auto simp: add_node_def adj_def has_node_def map_of_nodes [symmetric] map_add_def
      split: option.splits)

lemma nodes_set_adj: "nodes (set_adj g u v) = nodes g"
  by (auto simp: set_adj_def nodes_def split: prod.splits)

lemma map_of_set_adj:
  "map_of (set_adj g u v) k = (if k = u then map_option (put_nbr v) (map_of g k) else map_of g k)"
  by (induction g) (auto simp: set_adj_def)

lemma adj_set_adj:
  "adj (set_adj g u v) k = (if k = u \<and> u \<in> set (nodes g) then put_nbr v (adj g k) else adj g k)"
  using map_of_nodes [of g k]
  by (auto simp: adj_def map_of_set_adj split: option.splits)

lemma nodes_add_edge: "set (nodes (add_edge g u v)) = insert u (insert v (set (nodes g)))"
  by (auto simp: add_edge_def nodes_set_adj nodes_add_node)

lemma adj_add_edge:
  "adj (add_edge g u v) k =
     (let a = adj g k; b = (if k = u then put_nbr v a else a)
      in if k = v then put_nbr u b else b)"
  by (auto simp: add_edge_def adj_set_adj nodes_set_adj nodes_add_node adj_add_node Let_def)

lemma distinct_add_node: "distinct (nodes g) \<Longrightarrow> distinct (nodes (add_node g n))"
  by (auto simp: add_node_def has_node_def nodes_def)

lemma distinct_add_edge: "distinct (nodes g) \<Longrightarrow> distinct (nodes (add_edge g u v))"
  by (simp add: add_edge_def nodes_set_adj distinct_add_node)

lemma is_edge_adj: "is_edge g u v = (u \<in> set (nodes g) \<and> v \<in> set (adj g u))"
  by (simp add: is_edge_def neighbors_adj)

lemma walk_invariant:
  "walk g V P c = Inr w \<Longrightarrow> P \<noteq> [] \<Longrightarrow> last P = c \<Longrightarrow> set P \<subseteq> V \<Longrightarrow> distinct P \<Longrightarrow>
   successively (is_edge g) P \<Longrightarrow>
   (\<exists>s. w = P @ s) \<and> distinct w \<and> successively (is_edge g) w \<and>
   set w \<subseteq> set P \<union> set (nodes g) \<and> last w \<in> set (nodes g) \<and>
   set (adj g (last w)) \<subseteq> V \<union> set w"
proof (induction g V P c rule: walk.induct)
  case (1 g V P c)
  from "1.prems"(1) obtain nbrs where n: "neighbors g c = Inr nbrs"
    by (subst (asm) walk.simps) (auto split: sum.splits)
  then have cn: "c \<in> set (nodes g)" and nb: "nbrs = adj g c"
    by (auto simp: neighbors_adj split: if_splits)
  show ?case
  proof (cases "filter (\<lambda>n. n \<notin> V) nbrs")
    case Nil
    with n "1.prems"(1) have w: "w = P"
      by (subst (asm) walk.simps) simp
    from Nil have "set nbrs \<subseteq> V"
      by (auto simp: filter_empty_conv)
    with w "1.prems" cn nb show ?thesis
      by auto
  next
    case (Cons x rest)
    then have "x \<in> set (filter (\<lambda>n. n \<notin> V) nbrs)"
      by simp
    then have xn: "x \<in> set nbrs" and xv: "x \<notin> V"
      by auto
    from n Cons "1.prems"(1) have rec: "walk g (insert x V) (P @ [x]) x = Inr w"
      by (subst (asm) walk.simps) simp
    from xn cn nb have e: "is_edge g c x"
      by (simp add: is_edge_adj)
    from xv "1.prems"(4) have "x \<notin> set P"
      by auto
    with "1.prems"(5) have d: "distinct (P @ [x])"
      by simp
    from e "1.prems"(2,3,6) have s: "successively (is_edge g) (P @ [x])"
      by (simp add: successively_append_iff)
    from "1.prems"(4) have sub: "set (P @ [x]) \<subseteq> insert x V"
      by auto
    from "1.IH" [OF n Cons rec _ _ sub d s]
    have ih: "(\<exists>s. w = (P @ [x]) @ s) \<and> distinct w \<and> successively (is_edge g) w \<and>
       set w \<subseteq> set (P @ [x]) \<union> set (nodes g) \<and> last w \<in> set (nodes g) \<and>
       set (adj g (last w)) \<subseteq> insert x V \<union> set w"
      by simp
    then obtain s where ws: "w = (P @ [x]) @ s"
      by blast
    then have xw: "x \<in> set w"
      by simp
    from xn nb have "x \<in> set (adj g c)"
      by simp
    from ws have "\<exists>s'. w = P @ s'"
      by simp
    moreover have "set w \<subseteq> set P \<union> set (nodes g)"
    proof -
      from rec obtain nb' where "neighbors g x = Inr nb'"
        by (subst (asm) walk.simps) (auto split: sum.splits)
      then have "x \<in> set (nodes g)"
        by (auto simp: neighbors_adj split: if_splits)
      with ih show ?thesis by auto
    qed
    moreover from ih xw have "set (adj g (last w)) \<subseteq> V \<union> set w"
      by auto
    ultimately show ?thesis
      using ih by blast
  qed
qed

lemma walk_returns:
  "closed_graph g \<Longrightarrow> c \<in> set (nodes g) \<Longrightarrow> \<exists>w. walk g V P c = Inr w"
proof (induction g V P c rule: walk.induct)
  case (1 g V P c)
  from "1.prems"(2) have n: "neighbors g c = Inr (adj g c)"
    by (simp add: neighbors_adj)
  show ?case
  proof (cases "filter (\<lambda>n. n \<notin> V) (adj g c)")
    case Nil
    with n show ?thesis
      by (subst walk.simps) simp
  next
    case (Cons x rest)
    then have "x \<in> set (filter (\<lambda>n. n \<notin> V) (adj g c))"
      by simp
    then have "x \<in> set (adj g c)"
      by simp
    with "1.prems"(1) have "x \<in> set (nodes g)"
      by (auto simp: closed_graph_def)
    from "1.IH" [OF n Cons "1.prems"(1) this] obtain w
      where "walk g (insert x V) (P @ [x]) x = Inr w"
      by blast
    with n Cons show ?thesis
      by (subst walk.simps) simp
  qed
qed

lemma add_crossing_long: "4 \<le> length c \<Longrightarrow> add_crossing g c = Inr (add_six g c)"
  by (auto simp: add_crossing_def edge_at_def item_def bind_def add_six_def)

lemma edge_at_cases:
  "edge_at c i j g = Inl IndexError \<or> edge_at c i j g = Inr (add_edge g (c ! i) (c ! j))"
  by (simp add: edge_at_def item_def bind_def)

lemma edge_at_short: "length c \<le> j \<Longrightarrow> edge_at c i j g = Inl IndexError"
  by (simp add: edge_at_def item_def bind_def)

lemma add_crossing_short: "length c < 4 \<Longrightarrow> add_crossing g c = Inl IndexError"
proof -
  assume l: "length c < 4"
  have b: "\<And>e f. bind (Inl e :: error + graph) f = (Inl e :: error + graph)"
    by (simp add: bind_def)
  have r: "\<And>x f. bind (Inr x :: error + graph) f = (f x :: error + graph)"
    by (simp add: bind_def)
  from l have s: "\<And>h. edge_at c 2 3 h = Inl IndexError"
    by (simp add: edge_at_short)
  consider "edge_at c 0 1 g = Inl IndexError"
    | "edge_at c 0 1 g = Inr (add_edge g (c ! 0) (c ! 1))"
      "edge_at c 1 2 (add_edge g (c ! 0) (c ! 1)) = Inl IndexError"
    | "edge_at c 0 1 g = Inr (add_edge g (c ! 0) (c ! 1))"
      "edge_at c 1 2 (add_edge g (c ! 0) (c ! 1)) =
         Inr (add_edge (add_edge g (c ! 0) (c ! 1)) (c ! 1) (c ! 2))"
    using edge_at_cases [of c 0 1 g] edge_at_cases [of c 1 2 "add_edge g (c ! 0) (c ! 1)"]
    by blast
  then show ?thesis
  proof cases
    case 1
    then show ?thesis by (simp only: add_crossing_def b)
  next
    case 2
    then show ?thesis by (simp only: add_crossing_def b r)
  next
    case 3
    then show ?thesis by (simp only: add_crossing_def b r s)
  qed
qed

lemma add_crossings_error:
  "\<exists>c \<in> set pd. length c < 4 \<Longrightarrow> add_crossings g pd = Inl IndexError"
proof (induction pd arbitrary: g)
  case Nil
  then show ?case by simp
next
  case (Cons c pd)
  show ?case
  proof (cases "length c < 4")
    case True
    then show ?thesis by (simp add: add_crossing_short)
  next
    case False
    with Cons.prems have "\<exists>c \<in> set pd. length c < 4" by auto
    with False Cons.IH show ?thesis by (simp add: add_crossing_long)
  qed
qed

lemma add_crossings_fold:
  "\<forall>c \<in> set pd. 4 \<le> length c \<Longrightarrow> add_crossings g pd = Inr (fold (\<lambda>c h. add_six h c) pd g)"
  by (induction pd arbitrary: g) (simp_all add: add_crossing_long)

lemma add_crossings_Inr:
  "add_crossings g pd = Inr g' \<Longrightarrow> c \<in> set pd \<Longrightarrow> 4 \<le> length c"
proof (rule ccontr)
  assume a: "add_crossings g pd = Inr g'" and c: "c \<in> set pd" and "\<not> 4 \<le> length c"
  then have "\<exists>c \<in> set pd. length c < 4"
    by (auto simp: not_le)
  from add_crossings_error [OF this, of g] a show False
    by simp
qed

lemma mem_adj_nodes: "v \<in> set (adj g u) \<Longrightarrow> u \<in> set (nodes g)"
  using map_of_nodes [of g u] by (auto simp: adj_def split: option.splits)

lemma edge_pairs_add_edge:
  "{(a, b). b \<in> set (adj (add_edge g u v) a)} = {(a, b). b \<in> set (adj g a)} \<union> {(u, v), (v, u)}"
  by (auto simp: adj_add_edge put_nbr_def Let_def split: if_splits)

lemma edges_pairs: "edges g = (\<lambda>(a, b). {a, b}) ` {(a, b). b \<in> set (adj g a)}"
proof
  show "edges g \<subseteq> (\<lambda>(a, b). {a, b}) ` {(a, b). b \<in> set (adj g a)}"
    by (auto simp: edges_def)
next
  show "(\<lambda>(a, b). {a, b}) ` {(a, b). b \<in> set (adj g a)} \<subseteq> edges g"
  proof
    fix e assume "e \<in> (\<lambda>(a, b). {a, b}) ` {(a, b). b \<in> set (adj g a)}"
    then obtain a b where e: "e = {a, b}" and b: "b \<in> set (adj g a)"
      by auto
    from b have "a \<in> set (nodes g)"
      by (rule mem_adj_nodes)
    with e b show "e \<in> edges g"
      unfolding edges_def by blast
  qed
qed

lemma edges_add_edge: "edges (add_edge g u v) = insert {u, v} (edges g)"
proof -
  have "edges (add_edge g u v) =
      (\<lambda>(a, b). {a, b}) ` ({(a, b). b \<in> set (adj g a)} \<union> {(u, v), (v, u)})"
    by (simp only: edges_pairs edge_pairs_add_edge)
  also have "\<dots> = insert {u, v} (edges g)"
    by (simp add: edges_pairs image_Un insert_commute)
  finally show ?thesis .
qed

lemma edges_add_six: "edges (add_six g c) = edges g \<union> crossing_edges c"
  by (auto simp: add_six_def edges_add_edge crossing_edges_def insert_commute)

lemma edges_fold: "edges (fold (\<lambda>c h. add_six h c) pd g) = edges g \<union> (\<Union>c \<in> set pd. crossing_edges c)"
  by (induction pd arbitrary: g) (auto simp: edges_add_six)

lemma take_four: "4 \<le> length c \<Longrightarrow> take 4 c = [c ! 0, c ! 1, c ! 2, c ! 3]"
  by (auto simp: eval_nat_numeral Suc_le_length_iff)

lemma nodes_add_six_nth:
  "set (nodes (add_six g c)) = set (nodes g) \<union> {c ! 0, c ! 1, c ! 2, c ! 3}"
  by (auto simp: add_six_def nodes_add_edge)

lemma nodes_add_six:
  "4 \<le> length c \<Longrightarrow> set (nodes (add_six g c)) = set (nodes g) \<union> set (take 4 c)"
  by (simp add: nodes_add_six_nth take_four)

lemma nodes_fold:
  "\<forall>c \<in> set pd. 4 \<le> length c \<Longrightarrow>
   set (nodes (fold (\<lambda>c h. add_six h c) pd g)) = set (nodes g) \<union> (\<Union>c \<in> set pd. set (take 4 c))"
  by (induction pd arbitrary: g) (auto simp: nodes_add_six)

lemma same_nodes_add_node: "n \<in> set (nodes g) \<Longrightarrow> add_node g n = g"
  by (simp add: add_node_def has_node_def)

lemma same_nodes_add_edge:
  "u \<in> set (nodes g) \<Longrightarrow> v \<in> set (nodes g) \<Longrightarrow> nodes (add_edge g u v) = nodes g"
  by (simp add: add_edge_def nodes_set_adj same_nodes_add_node)

lemma set_add_fold:
  "set (fold (\<lambda>arc t. set_add t arc) c s) = set s \<union> set c \<and>
   (distinct s \<longrightarrow> distinct (fold (\<lambda>arc t. set_add t arc) c s))"
  by (induction c arbitrary: s) (auto simp: set_add_def)

lemma all_arcs_fold:
  "set (fold (\<lambda>cross s. fold (\<lambda>arc t. set_add t arc) cross s) pd s0) = set s0 \<union> \<Union>(set ` set pd) \<and>
   (distinct s0 \<longrightarrow> distinct (fold (\<lambda>cross s. fold (\<lambda>arc t. set_add t arc) cross s) pd s0))"
proof (induction pd arbitrary: s0)
  case Nil
  then show ?case by simp
next
  case (Cons c pd)
  show ?case
    using Cons.IH [of "fold (\<lambda>arc t. set_add t arc) c s0"] set_add_fold [of c s0]
    by auto
qed

lemma set_all_arcs: "set (all_arcs pd) = \<Union>(set ` set pd)"
  using all_arcs_fold [of pd "[]"] by (simp add: all_arcs_def)

lemma distinct_all_arcs: "distinct (all_arcs pd)"
  using all_arcs_fold [of pd "[]"] by (simp add: all_arcs_def)

lemma nodes_add_nodes_from:
  "distinct (nodes g @ xs) \<Longrightarrow> nodes (add_nodes_from g xs) = nodes g @ xs"
proof (induction xs arbitrary: g)
  case Nil
  then show ?case by (simp add: add_nodes_from_def)
next
  case (Cons x xs)
  from Cons.prems have n: "nodes (add_node g x) = nodes g @ [x]"
    by (simp add: add_node_def has_node_def nodes_def)
  with Cons.prems have "distinct (nodes (add_node g x) @ xs)"
    by simp
  from Cons.IH [OF this] n show ?case
    by (simp add: add_nodes_from_def)
qed

lemma adj_add_nodes_from: "adj (add_nodes_from g xs) k = adj g k"
  by (induction xs arbitrary: g) (simp_all add: add_nodes_from_def adj_add_node)

lemma adj_empty: "adj [] k = []"
  by (simp add: adj_def)

lemma same_nodes_add_six:
  "{c ! 0, c ! 1, c ! 2, c ! 3} \<subseteq> set (nodes g) \<Longrightarrow> nodes (add_six g c) = nodes g"
  by (simp add: add_six_def same_nodes_add_edge)

lemma same_nodes_fold:
  "\<forall>c \<in> set pd. {c ! 0, c ! 1, c ! 2, c ! 3} \<subseteq> set (nodes g) \<Longrightarrow>
   nodes (fold (\<lambda>c h. add_six h c) pd g) = nodes g"
  by (induction pd arbitrary: g) (simp_all add: same_nodes_add_six)

lemma closed_add_edge: "closed_graph g \<Longrightarrow> closed_graph (add_edge g u v)"
  unfolding closed_graph_def
  by (auto simp: adj_add_edge nodes_add_edge put_nbr_def Let_def split: if_splits)

lemma closed_add_six: "closed_graph g \<Longrightarrow> closed_graph (add_six g c)"
  by (simp add: add_six_def closed_add_edge)

lemma closed_fold: "closed_graph g \<Longrightarrow> closed_graph (fold (\<lambda>c h. add_six h c) pd g)"
  by (induction pd arbitrary: g) (simp_all add: closed_add_six)

lemma closed_start: "closed_graph (add_nodes_from [] xs)"
  by (simp add: closed_graph_def adj_add_nodes_from adj_empty)

text \<open>What \<open>build_graph\<close> returns.\<close>

lemma build_graph_Inr:
  assumes "build_graph ord pd = Inr g"
  shows "\<forall>c \<in> set pd. 4 \<le> length c"
    and "g = fold (\<lambda>c h. add_six h c) pd (add_nodes_from [] (ord (all_arcs pd)))"
proof -
  from assms show l: "\<forall>c \<in> set pd. 4 \<le> length c"
    unfolding build_graph_def using add_crossings_Inr by blast
  from add_crossings_fold [OF l] assms
  show "g = fold (\<lambda>c h. add_six h c) pd (add_nodes_from [] (ord (all_arcs pd)))"
    by (simp add: build_graph_def)
qed

lemma build_graph_long:
  "\<forall>c \<in> set pd. 4 \<le> length c \<Longrightarrow>
   build_graph ord pd = Inr (fold (\<lambda>c h. add_six h c) pd (add_nodes_from [] (ord (all_arcs pd))))"
  by (simp add: build_graph_def add_crossings_fold)

lemma build_graph_closed: "build_graph ord pd = Inr g \<Longrightarrow> closed_graph g"
  using build_graph_Inr(2) closed_fold closed_start by metis

lemma nth_mem_four: "4 \<le> length c \<Longrightarrow> {c ! 0, c ! 1, c ! 2, c ! 3} \<subseteq> set c"
  using take_four [of c] set_take_subset [of 4 c] by auto

lemma nth_mem_crossing:
  "4 \<le> length c \<Longrightarrow> c \<in> set pd \<Longrightarrow> {c ! 0, c ! 1, c ! 2, c ! 3} \<subseteq> \<Union>(set ` set pd)"
  using nth_mem_four [of c] by blast

lemma build_graph_nodes:
  assumes "build_graph ord pd = Inr g" and "set_iteration ord"
  shows "nodes g = ord (all_arcs pd)"
proof -
  let ?g0 = "add_nodes_from [] (ord (all_arcs pd))"
  from assms(2) have d: "distinct (ord (all_arcs pd))"
    and s: "set (ord (all_arcs pd)) = \<Union>(set ` set pd)"
    using distinct_all_arcs [of pd] set_all_arcs [of pd] by (auto simp: set_iteration_def)
  from d have n0: "nodes ?g0 = ord (all_arcs pd)"
    using nodes_add_nodes_from [of "[]" "ord (all_arcs pd)"] by (simp add: nodes_def)
  from build_graph_Inr [OF assms(1)] have l: "\<forall>c \<in> set pd. 4 \<le> length c"
    and g: "g = fold (\<lambda>c h. add_six h c) pd ?g0"
    by auto
  from l have "\<forall>c \<in> set pd. {c ! 0, c ! 1, c ! 2, c ! 3} \<subseteq> set (nodes ?g0)"
    using nth_mem_crossing unfolding n0 s by blast
  from same_nodes_fold [OF this] g n0 show ?thesis
    by simp
qed

lemma build_graph_node_set:
  "build_graph ord pd = Inr g \<Longrightarrow> set_iteration ord \<Longrightarrow> set (nodes g) = \<Union>(set ` set pd)"
  using build_graph_nodes [of ord pd g] set_all_arcs [of pd] distinct_all_arcs [of pd]
  by (auto simp: set_iteration_def)

lemma build_graph_distinct:
  "build_graph ord pd = Inr g \<Longrightarrow> set_iteration ord \<Longrightarrow> distinct (nodes g)"
  using build_graph_nodes [of ord pd g] distinct_all_arcs [of pd]
  by (auto simp: set_iteration_def)

lemma build_graph_edges:
  "build_graph ord pd = Inr g \<Longrightarrow> edges g = (\<Union>c \<in> set pd. crossing_edges c)"
proof -
  assume "build_graph ord pd = Inr g"
  from build_graph_Inr(2) [OF this] have "edges g = edges (add_nodes_from [] (ord (all_arcs pd))) \<union> (\<Union>c \<in> set pd. crossing_edges c)"
    by (simp add: edges_fold)
  moreover have "edges (add_nodes_from [] (ord (all_arcs pd))) = {}"
    by (simp add: edges_pairs adj_add_nodes_from adj_empty)
  ultimately show ?thesis by simp
qed

lemma set_iteration_insertion_order: "set_iteration insertion_order"
  by (simp add: set_iteration_def insertion_order_def)

lemma four_list: "length c = 4 \<Longrightarrow> \<exists>a b c' d. c = [a, b, c', d]"
  by (auto simp: eval_nat_numeral length_Suc_conv)

lemma distinct_put_nbr: "distinct ns \<Longrightarrow> distinct (put_nbr v ns)"
  by (simp add: put_nbr_def)

lemma distinct_adj_add_edge: "distinct (adj g k) \<Longrightarrow> distinct (adj (add_edge g u v) k)"
  by (auto simp: adj_add_edge Let_def distinct_put_nbr)

lemma distinct_adj_add_six: "distinct (adj g k) \<Longrightarrow> distinct (adj (add_six g c) k)"
  by (simp add: add_six_def distinct_adj_add_edge)

lemma distinct_adj_fold:
  "distinct (adj g k) \<Longrightarrow> distinct (adj (fold (\<lambda>c h. add_six h c) pd g) k)"
  by (induction pd arbitrary: g) (simp_all add: distinct_adj_add_six)

lemma build_graph_distinct_adj: "build_graph ord pd = Inr g \<Longrightarrow> distinct (adj g k)"
  using build_graph_Inr(2) [of ord pd g] distinct_adj_fold [of "add_nodes_from [] (ord (all_arcs pd))" k pd]
  by (simp add: adj_add_nodes_from adj_empty)

lemma crossing_edges_card2:
  "length c = 4 \<Longrightarrow> distinct c \<Longrightarrow> e \<in> crossing_edges c \<Longrightarrow> card e = 2"
proof -
  assume "length c = 4" and d: "distinct c" and e: "e \<in> crossing_edges c"
  then obtain a b c' d' where c: "c = [a, b, c', d']"
    using four_list by blast
  from e d show ?thesis
    unfolding c crossing_edges_def by auto
qed

lemma crossing_edges_card6:
  "length c = 4 \<Longrightarrow> distinct c \<Longrightarrow> card (crossing_edges c) = 6"
proof -
  assume "length c = 4" and d: "distinct c"
  then obtain a b c' d' where c: "c = [a, b, c', d']"
    using four_list by blast
  from d show ?thesis
    unfolding c crossing_edges_def by (auto simp: doubleton_eq_iff)
qed

lemma crossing_edges_le6: "card (crossing_edges c) \<le> 6"
proof -
  have "card (crossing_edges c) \<le> length [{c ! 0, c ! 1}, {c ! 1, c ! 2}, {c ! 2, c ! 3},
      {c ! 3, c ! 0}, {c ! 0, c ! 2}, {c ! 1, c ! 3}]"
    unfolding crossing_edges_def by (rule order_trans [OF _ card_length]) simp
  then show ?thesis by simp
qed

lemma finite_crossing_edges: "finite (crossing_edges c)"
  by (simp add: crossing_edges_def)

lemma card_all_crossing_edges: "card (\<Union>c \<in> set pd. crossing_edges c) \<le> 6 * length pd"
proof (induction pd)
  case Nil
  then show ?case by simp
next
  case (Cons c pd)
  have "card (\<Union>c' \<in> set (c # pd). crossing_edges c') \<le>
      card (crossing_edges c) + card (\<Union>c' \<in> set pd. crossing_edges c')"
    by (simp add: card_Un_le)
  with Cons.IH crossing_edges_le6 [of c] show ?case
    by simp
qed

subsection \<open>The greedy walk\<close>

lemma trace_path_walk:
  "trace_path g = Inr p \<Longrightarrow>
   \<exists>w. walk g {hd (nodes g)} [hd (nodes g)] (hd (nodes g)) = Inr w \<and> nodes g \<noteq> [] \<and>
       close_path g w = Inr p"
  by (auto simp: trace_path_def bind_def split: list.splits sum.splits)

lemma close_path_is_edge:
  "last w \<in> set (nodes g) \<Longrightarrow>
   close_path g w = Inr (if is_edge g (last w) (hd w) then w @ [hd w] else w)"
  by (simp add: close_path_def bind_def neighbors_adj is_edge_adj)

lemma walk_start:
  assumes "walk g {s} [s] s = Inr w"
  shows "w \<noteq> [] \<and> hd w = s \<and> distinct w \<and> successively (is_edge g) w \<and>
         set w \<subseteq> set (nodes g) \<and> last w \<in> set (nodes g) \<and> set (adj g (last w)) \<subseteq> set w"
proof -
  from assms obtain nb where "neighbors g s = Inr nb"
    by (subst (asm) walk.simps) (auto split: sum.splits)
  then have s: "s \<in> set (nodes g)"
    by (auto simp: neighbors_adj split: if_splits)
  from walk_invariant [OF assms] have
    i: "(\<exists>t. w = [s] @ t) \<and> distinct w \<and> successively (is_edge g) w \<and>
        set w \<subseteq> set [s] \<union> set (nodes g) \<and> last w \<in> set (nodes g) \<and>
        set (adj g (last w)) \<subseteq> {s} \<union> set w"
    by simp
  then obtain t where "w = [s] @ t"
    by blast
  with i s show ?thesis
    by auto
qed

subsection \<open>The shape of the traced path\<close>

text \<open>
  Claim C1.  For a graph \<open>g\<close> that \<open>build_graph\<close> returns and the path \<open>p\<close> that
  \<open>trace_path\<close> returns on it, let \<open>w\<close> be what the greedy walk from the first node
  returns.  Then \<open>w\<close> is not empty and has no identifier twice, every two consecutive
  entries of \<open>w\<close> are an edge of \<open>g\<close>, and \<open>p\<close> is \<open>w\<close> followed by its first entry when
  that first entry is a neighbour of the last entry of \<open>w\<close>, and is \<open>w\<close> otherwise.  So
  the only repeat in \<open>p\<close> is the closing one, and it is there exactly when the first arc is
  a neighbour of the last arc reached.
\<close>

theorem trace_path_shape:
  assumes "build_graph ord pd = Inr g" and "trace_path g = Inr p"
  shows "\<exists>w. walk g {hd (nodes g)} [hd (nodes g)] (hd (nodes g)) = Inr w \<and>
           w \<noteq> [] \<and> distinct w \<and>
           (\<forall>i. Suc i < length w \<longrightarrow> is_edge g (w ! i) (w ! Suc i)) \<and>
           p = (if is_edge g (last w) (hd w) then w @ [hd w] else w)"
proof -
  from trace_path_walk [OF assms(2)] obtain w
    where w: "walk g {hd (nodes g)} [hd (nodes g)] (hd (nodes g)) = Inr w"
      and c: "close_path g w = Inr p"
    by blast
  from walk_start [OF w] have i: "w \<noteq> []" "distinct w" "successively (is_edge g) w"
    "last w \<in> set (nodes g)"
    by auto
  from i(3) have "\<forall>i. Suc i < length w \<longrightarrow> is_edge g (w ! i) (w ! Suc i)"
    by (simp add: successively_conv_nth)
  moreover from c close_path_is_edge [OF i(4)]
  have "p = (if is_edge g (last w) (hd w) then w @ [hd w] else w)"
    by simp
  ultimately show ?thesis
    using w i(1,2) by blast
qed

theorem trace_path_shape_witness:
  "build_graph insertion_order [[1, 2, 3, 4], [3, 4, 5, 6]] =
     Inr [(1, [2, 4, 3]), (2, [1, 3, 4]), (3, [2, 4, 1, 6, 5]),
          (4, [3, 1, 2, 5, 6]), (5, [4, 6, 3]), (6, [5, 3, 4])] \<and>
   trace_path [(1, [2, 4, 3]), (2, [1, 3, 4]), (3, [2, 4, 1, 6, 5]),
          (4, [3, 1, 2, 5, 6]), (5, [4, 6, 3]), (6, [5, 3, 4])] = Inr [1, 2, 3, 4, 5, 6] \<and>
   (\<exists>w. walk [(1, [2, 4, 3]), (2, [1, 3, 4]), (3, [2, 4, 1, 6, 5]),
          (4, [3, 1, 2, 5, 6]), (5, [4, 6, 3]), (6, [5, 3, 4])] {1} [1] 1 = Inr w \<and>
        w \<noteq> [] \<and> distinct w \<and>
        (\<forall>i. Suc i < length w \<longrightarrow>
           is_edge [(1, [2, 4, 3]), (2, [1, 3, 4]), (3, [2, 4, 1, 6, 5]),
             (4, [3, 1, 2, 5, 6]), (5, [4, 6, 3]), (6, [5, 3, 4])] (w ! i) (w ! Suc i)) \<and>
        [1, 2, 3, 4, 5, 6] =
          (if is_edge [(1, [2, 4, 3]), (2, [1, 3, 4]), (3, [2, 4, 1, 6, 5]),
                (4, [3, 1, 2, 5, 6]), (5, [4, 6, 3]), (6, [5, 3, 4])] (last w) (hd w)
           then w @ [hd w] else w))"
proof -
  let ?g = "[(1, [2, 4, 3]), (2, [1, 3, 4]), (3, [2, 4, 1, 6, 5]),
          (4, [3, 1, 2, 5, 6]), (5, [4, 6, 3]), (6, [5, 3, 4])] :: graph"
  have b: "build_graph insertion_order [[1, 2, 3, 4], [3, 4, 5, 6]] = Inr ?g"
    by code_simp
  have t: "trace_path ?g = Inr [1, 2, 3, 4, 5, 6]"
    by code_simp
  have h: "hd (nodes ?g) = 1"
    by (simp add: nodes_def)
  from trace_path_shape [OF b t] b t show ?thesis
    unfolding h by blast
qed

subsection \<open>The graph of a PD code\<close>

lemma build_graph_no_loop:
  assumes "build_graph ord pd = Inr g" and "\<forall>c \<in> set pd. length c = 4 \<and> distinct c"
  shows "u \<notin> set (adj g u)"
proof
  assume "u \<in> set (adj g u)"
  then have "{u, u} \<in> edges g"
    unfolding edges_pairs by blast
  with build_graph_edges [OF assms(1)] obtain c where "c \<in> set pd" and "{u, u} \<in> crossing_edges c"
    by blast
  with assms(2) crossing_edges_card2 [of c "{u, u}"] show False
    by simp
qed

text \<open>
  Claim C2.  Let every crossing of the PD code have four pairwise distinct identifiers.
  Then \<open>build_graph\<close> returns a graph whose edges are exactly the six edges of every
  crossing: the four of the cyclic boundary and the two diagonals, six different edges for
  each crossing.  Every call of \<open>add_crossing\<close> adds exactly these six to the edges that
  are there.  The graph is simple: no neighbour list has an identifier twice, and no node
  is its own neighbour.  The number of distinct edges is at most six times the number of
  crossings.
\<close>

theorem build_graph_six_edges:
  assumes "\<forall>c \<in> set pd. length c = 4 \<and> distinct c"
  shows "(\<exists>g. build_graph ord pd = Inr g \<and>
            edges g = (\<Union>c \<in> set pd. crossing_edges c) \<and>
            (\<forall>c \<in> set pd. card (crossing_edges c) = 6) \<and>
            (\<forall>u ns. neighbors g u = Inr ns \<longrightarrow> distinct ns \<and> u \<notin> set ns) \<and>
            card (edges g) \<le> 6 * length pd) \<and>
         (\<forall>h. \<forall>c \<in> set pd. \<exists>h'. add_crossing h c = Inr h' \<and>
            edges h' = edges h \<union> crossing_edges c)"
proof -
  from assms have l: "\<forall>c \<in> set pd. 4 \<le> length c"
    by simp
  from build_graph_long [OF l] obtain g where g: "build_graph ord pd = Inr g"
    by blast
  have e: "edges g = (\<Union>c \<in> set pd. crossing_edges c)"
    by (rule build_graph_edges [OF g])
  have six: "\<forall>c \<in> set pd. card (crossing_edges c) = 6"
    using assms crossing_edges_card6 by blast
  have simple: "\<forall>u ns. neighbors g u = Inr ns \<longrightarrow> distinct ns \<and> u \<notin> set ns"
  proof (intro allI impI)
    fix u ns assume "neighbors g u = Inr ns"
    then have "ns = adj g u"
      by (auto simp: neighbors_adj split: if_splits)
    with build_graph_distinct_adj [OF g, of u] build_graph_no_loop [OF g assms, of u]
    show "distinct ns \<and> u \<notin> set ns"
      by simp
  qed
  have bound: "card (edges g) \<le> 6 * length pd"
    unfolding e by (rule card_all_crossing_edges)
  have step: "\<forall>h. \<forall>c \<in> set pd. \<exists>h'. add_crossing h c = Inr h' \<and>
      edges h' = edges h \<union> crossing_edges c"
    using l by (simp add: add_crossing_long edges_add_six)
  from g e six simple bound step show ?thesis
    by blast
qed

theorem build_graph_six_edges_witness:
  "\<exists>g. build_graph insertion_order [[1, 2, 3, 4], [3, 4, 5, 6]] = Inr g \<and>
      edges g = crossing_edges [1, 2, 3, 4] \<union> crossing_edges [3, 4, 5, 6] \<and>
      card (crossing_edges [1, 2, 3, 4]) = 6 \<and>
      card (edges g) \<le> 12"
proof -
  have h: "\<forall>c \<in> set [[1, 2, 3, 4], [3, 4, 5, 6 :: int]]. length c = 4 \<and> distinct c"
    by simp
  from build_graph_six_edges [OF h, of insertion_order] show ?thesis
    by auto
qed

text \<open>
  Claim C3.  For a non-empty PD code of 4-tuples, \<open>build_graph\<close> returns a graph whose
  nodes are exactly the identifiers that occur in the PD code, each once.  For the PD code
  \<open>[(1,2,3,4)]\<close> the nodes are \<open>1, 2, 3, 4\<close> and the edges are the six edges
  \<open>(1,2), (2,3), (3,4), (4,1), (1,3), (2,4)\<close>.
\<close>

theorem build_graph_node_set_exact:
  assumes "set_iteration ord"
  shows "(pd \<noteq> [] \<and> (\<forall>c \<in> set pd. length c = 4) \<longrightarrow>
           (\<exists>g. build_graph ord pd = Inr g \<and> set (nodes g) = \<Union>(set ` set pd) \<and>
                distinct (nodes g))) \<and>
         (\<exists>g. build_graph ord [[1, 2, 3, 4]] = Inr g \<and> set (nodes g) = {1, 2, 3, 4} \<and>
              edges g = {{1, 2}, {2, 3}, {3, 4}, {4, 1}, {1, 3}, {2, 4}})"
proof
  show "pd \<noteq> [] \<and> (\<forall>c \<in> set pd. length c = 4) \<longrightarrow>
      (\<exists>g. build_graph ord pd = Inr g \<and> set (nodes g) = \<Union>(set ` set pd) \<and>
           distinct (nodes g))"
  proof
    assume "pd \<noteq> [] \<and> (\<forall>c \<in> set pd. length c = 4)"
    then have "\<forall>c \<in> set pd. 4 \<le> length c"
      by simp
    from build_graph_long [OF this] obtain g where g: "build_graph ord pd = Inr g"
      by blast
    from g build_graph_node_set [OF g assms] build_graph_distinct [OF g assms]
    show "\<exists>g. build_graph ord pd = Inr g \<and> set (nodes g) = \<Union>(set ` set pd) \<and>
        distinct (nodes g)"
      by blast
  qed
next
  have "\<forall>c \<in> set [[1, 2, 3, 4 :: int]]. 4 \<le> length c"
    by simp
  from build_graph_long [OF this] obtain g where g: "build_graph ord [[1, 2, 3, 4]] = Inr g"
    by blast
  from build_graph_node_set [OF g assms] have n: "set (nodes g) = {1, 2, 3, 4}"
    by simp
  from build_graph_edges [OF g] have "edges g = {{1, 2}, {2, 3}, {3, 4}, {4, 1}, {1, 3}, {2, 4}}"
    by (simp add: crossing_edges_def)
  with g n show "\<exists>g. build_graph ord [[1, 2, 3, 4]] = Inr g \<and> set (nodes g) = {1, 2, 3, 4} \<and>
      edges g = {{1, 2}, {2, 3}, {3, 4}, {4, 1}, {1, 3}, {2, 4}}"
    by blast
qed

theorem build_graph_node_set_exact_witness:
  "set_iteration insertion_order \<and>
   (\<exists>g. build_graph insertion_order [[1, 2, 3, 4], [3, 4, 5, 6]] = Inr g \<and>
      set (nodes g) = {1, 2, 3, 4, 5, 6} \<and> distinct (nodes g)) \<and>
   (\<exists>g. build_graph insertion_order [[1, 2, 3, 4]] = Inr g \<and> set (nodes g) = {1, 2, 3, 4} \<and>
      edges g = {{1, 2}, {2, 3}, {3, 4}, {4, 1}, {1, 3}, {2, 4}})"
proof -
  have "[[1, 2, 3, 4], [3, 4, 5, 6 :: int]] \<noteq> [] \<and>
      (\<forall>c \<in> set [[1, 2, 3, 4], [3, 4, 5, 6 :: int]]. length c = 4)"
    by simp
  with build_graph_node_set_exact [OF set_iteration_insertion_order, of "[[1, 2, 3, 4], [3, 4, 5, 6]]"]
  have "\<exists>g. build_graph insertion_order [[1, 2, 3, 4], [3, 4, 5, 6]] = Inr g \<and>
      set (nodes g) = \<Union>(set ` set [[1, 2, 3, 4], [3, 4, 5, 6]]) \<and> distinct (nodes g)"
    by blast
  then have a: "\<exists>g. build_graph insertion_order [[1, 2, 3, 4], [3, 4, 5, 6]] = Inr g \<and>
      set (nodes g) = {1, 2, 3, 4, 5, 6} \<and> distinct (nodes g)"
    by auto
  from build_graph_node_set_exact [OF set_iteration_insertion_order, of "[]"] a
    set_iteration_insertion_order show ?thesis
    by blast
qed

text \<open>
  Claim C5 says that a crossing whose length is not four, shorter or longer, makes
  \<open>build_graph\<close> raise.  The program has no check of the length: a crossing of five
  identifiers is accepted.
\<close>

theorem long_crossing_is_accepted:
  "build_graph insertion_order [[1, 2, 3, 4, 5]] =
     Inr [(1, [2, 4, 3]), (2, [1, 3, 4]), (3, [2, 4, 1]), (4, [3, 1, 2]), (5, [])]"
  by code_simp

text \<open>
  Claim C5 as amended.  A PD code with a crossing of fewer than four identifiers makes
  \<open>build_graph\<close> raise Python's \<open>IndexError\<close>, from the indexing of the tuple.  When
  every crossing has four identifiers or more nothing is raised: the graph is returned,
  its edges are the six edges on the first four identifiers of every crossing, and every
  identifier of every crossing, also one past the fourth, is a node.
\<close>

theorem build_graph_arity:
  "((\<exists>c \<in> set pd. length c < 4) \<longrightarrow> build_graph ord pd = Inl IndexError) \<and>
   ((\<forall>c \<in> set pd. 4 \<le> length c) \<longrightarrow>
      (\<exists>g. build_graph ord pd = Inr g \<and>
           edges g = (\<Union>c \<in> set pd. crossing_edges (take 4 c)) \<and>
           (set_iteration ord \<longrightarrow> set (nodes g) = \<Union>(set ` set pd))))"
proof (intro conjI impI)
  assume "\<exists>c \<in> set pd. length c < 4"
  then show "build_graph ord pd = Inl IndexError"
    by (simp add: build_graph_def add_crossings_error)
next
  assume l: "\<forall>c \<in> set pd. 4 \<le> length c"
  from build_graph_long [OF l] obtain g where g: "build_graph ord pd = Inr g"
    by blast
  have "\<And>c. crossing_edges (take 4 c) = crossing_edges c"
    by (simp add: crossing_edges_def)
  with build_graph_edges [OF g] have "edges g = (\<Union>c \<in> set pd. crossing_edges (take 4 c))"
    by simp
  with g build_graph_node_set [OF g]
  show "\<exists>g. build_graph ord pd = Inr g \<and>
           edges g = (\<Union>c \<in> set pd. crossing_edges (take 4 c)) \<and>
           (set_iteration ord \<longrightarrow> set (nodes g) = \<Union>(set ` set pd))"
    by blast
qed

theorem build_graph_arity_witness:
  "build_graph insertion_order [[1, 2, 3, 4], [5, 6, 7]] = Inl IndexError \<and>
   (\<exists>g. build_graph insertion_order [[1, 2, 3, 4, 5]] = Inr g \<and>
      edges g = crossing_edges [1, 2, 3, 4] \<and> set (nodes g) = {1, 2, 3, 4, 5})"
proof -
  have a: "\<exists>c \<in> set [[1, 2, 3, 4], [5, 6, 7 :: int]]. length c < 4"
    by simp
  have b: "\<forall>c \<in> set [[1, 2, 3, 4, 5 :: int]]. 4 \<le> length c"
    by simp
  from build_graph_arity [of "[[1, 2, 3, 4], [5, 6, 7]]" insertion_order] a
  have "build_graph insertion_order [[1, 2, 3, 4], [5, 6, 7]] = Inl IndexError"
    by blast
  moreover from build_graph_arity [of "[[1, 2, 3, 4, 5]]" insertion_order] b
    set_iteration_insertion_order
  have "\<exists>g. build_graph insertion_order [[1, 2, 3, 4, 5]] = Inr g \<and>
      edges g = (\<Union>c \<in> set [[1, 2, 3, 4, 5]]. crossing_edges (take 4 c)) \<and>
      set (nodes g) = \<Union>(set ` set [[1, 2, 3, 4, 5]])"
    by blast
  ultimately show ?thesis
    by auto
qed

subsection \<open>Termination of the traversal\<close>

lemma build_graph_nonempty:
  assumes "build_graph ord pd = Inr g" and "pd \<noteq> []"
  shows "nodes g \<noteq> []"
proof -
  from assms(2) obtain c where c: "c \<in> set pd"
    by (cases pd) auto
  from build_graph_Inr [OF assms(1)] have l: "\<forall>c \<in> set pd. 4 \<le> length c"
    and g: "g = fold (\<lambda>c h. add_six h c) pd (add_nodes_from [] (ord (all_arcs pd)))"
    by auto
  from l c have "take 4 c \<noteq> []"
    by auto
  then obtain a where "a \<in> set (take 4 c)"
    by (cases "take 4 c") auto
  with c have "a \<in> (\<Union>c \<in> set pd. set (take 4 c))"
    by blast
  with nodes_fold [OF l, of "add_nodes_from [] (ord (all_arcs pd))"] g
  have "a \<in> set (nodes g)"
    by simp
  then show ?thesis
    by auto
qed

lemma trace_path_returns:
  assumes "closed_graph g" and "nodes g \<noteq> []"
  shows "\<exists>w. walk g {hd (nodes g)} [hd (nodes g)] (hd (nodes g)) = Inr w \<and>
             trace_path g = Inr (if is_edge g (last w) (hd w) then w @ [hd w] else w)"
proof -
  from assms(2) have s: "hd (nodes g) \<in> set (nodes g)"
    by simp
  from walk_returns [OF assms(1) s] obtain w
    where w: "walk g {hd (nodes g)} [hd (nodes g)] (hd (nodes g)) = Inr w"
    by blast
  from walk_start [OF w] have "last w \<in> set (nodes g)"
    by simp
  from close_path_is_edge [OF this] w assms(2) show ?thesis
    by (auto simp: trace_path_def bind_def split: list.splits)
qed

lemma walk_length:
  assumes "walk g {s} [s] s = Inr w"
  shows "length w \<le> card (set (nodes g))"
proof -
  from walk_start [OF assms] have d: "distinct w" and s: "set w \<subseteq> set (nodes g)"
    by auto
  from d have "card (set w) = length w"
    by (rule distinct_card)
  moreover from s have "card (set w) \<le> card (set (nodes g))"
    by (intro card_mono) simp_all
  ultimately show ?thesis
    by simp
qed

text \<open>
  Claim C8.  \<open>walk\<close> is a total function: the loop ends on every graph, since every
  round puts a new identifier of the graph into \<open>visited\<close>.  On a graph that
  \<open>build_graph\<close> returns for a non-empty PD code, the walk and \<open>trace_path\<close> return
  without an exception.  The walk's path \<open>w\<close> starts with one entry and gets one entry
  in every round but the last, so its length is the number of rounds: it is at most the
  number of nodes, and the returned path, with the closing repeat, has at most one entry
  more.  For a PD code of a single crossing of four identifiers that is at most 4 rounds
  and at most 5 entries.
\<close>

theorem trace_path_terminates:
  assumes "build_graph ord pd = Inr g" and "set_iteration ord" and "pd \<noteq> []"
  shows "\<exists>w p. walk g {hd (nodes g)} [hd (nodes g)] (hd (nodes g)) = Inr w \<and>
           trace_path g = Inr p \<and>
           length w \<le> length (nodes g) \<and> length p \<le> length (nodes g) + 1 \<and>
           (\<forall>c. pd = [c] \<and> length c = 4 \<longrightarrow> length w \<le> 4 \<and> length p \<le> 5)"
proof -
  from trace_path_returns [OF build_graph_closed [OF assms(1)] build_graph_nonempty [OF assms(1,3)]]
  obtain w where w: "walk g {hd (nodes g)} [hd (nodes g)] (hd (nodes g)) = Inr w"
    and p: "trace_path g = Inr (if is_edge g (last w) (hd w) then w @ [hd w] else w)"
    by blast
  let ?p = "if is_edge g (last w) (hd w) then w @ [hd w] else w"
  have lp: "length ?p \<le> length w + 1"
    by simp
  from walk_length [OF w] have c: "length w \<le> card (set (nodes g))" .
  also have "\<dots> \<le> length (nodes g)"
    by (rule card_length)
  finally have lw: "length w \<le> length (nodes g)" .
  have single: "\<forall>c. pd = [c] \<and> length c = 4 \<longrightarrow> length w \<le> 4 \<and> length ?p \<le> 5"
  proof (intro allI impI)
    fix c assume a: "pd = [c] \<and> length c = 4"
    with build_graph_node_set [OF assms(1,2)] have "set (nodes g) = set c"
      by simp
    with c have "length w \<le> card (set c)"
      by simp
    also have "\<dots> \<le> length c"
      by (rule card_length)
    finally have "length w \<le> 4"
      using a by simp
    with lp show "length w \<le> 4 \<and> length ?p \<le> 5"
      by simp
  qed
  from w p lw lp single show ?thesis
    by (intro exI [of _ w] exI [of _ ?p]) simp
qed

theorem trace_path_terminates_witness:
  "build_graph insertion_order [[1, 2, 3, 4]] =
     Inr [(1, [2, 4, 3]), (2, [1, 3, 4]), (3, [2, 4, 1]), (4, [3, 1, 2])] \<and>
   (\<exists>w p. walk [(1, [2, 4, 3]), (2, [1, 3, 4]), (3, [2, 4, 1]), (4, [3, 1, 2])] {1} [1] 1 = Inr w \<and>
      trace_path [(1, [2, 4, 3]), (2, [1, 3, 4]), (3, [2, 4, 1]), (4, [3, 1, 2])] = Inr p \<and>
      length w \<le> 4 \<and> length p \<le> 5)"
proof -
  let ?g = "[(1, [2, 4, 3]), (2, [1, 3, 4]), (3, [2, 4, 1]), (4, [3, 1, 2])] :: graph"
  have b: "build_graph insertion_order [[1, 2, 3, 4]] = Inr ?g"
    by code_simp
  have n: "[[1, 2, 3, 4 :: int]] \<noteq> []"
    by simp
  have h: "hd (nodes ?g) = 1"
    by (simp add: nodes_def)
  from trace_path_terminates [OF b set_iteration_insertion_order n] b show ?thesis
    unfolding h by auto
qed

subsection \<open>The position of an arc\<close>

lemma numpy_ok_index_numpy: "numpy_ok index_numpy"
  by (simp add: numpy_ok_def index_numpy_def)

lemma Knot_Inr:
  assumes "Knot ord np nm pd = Inr k"
  shows "\<exists>g p. build_graph ord pd = Inr g \<and> trace_path g = Inr p \<and>
           k = \<lparr>name = nm, pd_code = pd, crossings = length pd, graph = g,
                positions = calculate_positions np (length pd), path = p\<rparr>"
  using assms by (auto simp: Knot_def bind_def split: sum.splits)

lemma length_calculate_positions:
  "numpy_ok np \<Longrightarrow> length (calculate_positions np n) = n"
  by (simp add: calculate_positions_def numpy_ok_def)

lemma arc_position_from_none:
  "\<forall>c \<in> set pd. arc \<notin> set c \<Longrightarrow> arc_position_from i pd ps arc = Inr None"
  by (induction pd arbitrary: i) simp_all

lemma arc_position_from_first:
  "j < length pd \<Longrightarrow> arc \<in> set (pd ! j) \<Longrightarrow> \<forall>l < j. arc \<notin> set (pd ! l) \<Longrightarrow>
   arc_position_from i pd ps arc = bind (item ps (i + j)) (\<lambda>pos. Inr (Some pos))"
proof (induction pd arbitrary: i j)
  case Nil
  then show ?case by simp
next
  case (Cons c pd)
  show ?case
  proof (cases j)
    case 0
    with Cons.prems show ?thesis by simp
  next
    case (Suc j')
    with Cons.prems have "arc \<notin> set c"
      by auto
    moreover from Suc Cons.prems have "j' < length pd" "arc \<in> set (pd ! j')"
      "\<forall>l < j'. arc \<notin> set (pd ! l)"
      by auto
    ultimately show ?thesis
      using Cons.IH [of j' "Suc i"] Suc by simp
  qed
qed

lemma first_crossing_exists:
  "\<exists>c \<in> set pd. arc \<in> set c \<Longrightarrow>
   \<exists>j < length pd. arc \<in> set (pd ! j) \<and> (\<forall>l < j. arc \<notin> set (pd ! l))"
proof -
  assume "\<exists>c \<in> set pd. arc \<in> set c"
  then obtain c where "c \<in> set pd" and ac: "arc \<in> set c"
    by blast
  then obtain j0 where "j0 < length pd" and "pd ! j0 = c"
    by (auto simp: in_set_conv_nth)
  with ac have e: "\<exists>j. j < length pd \<and> arc \<in> set (pd ! j)"
    by blast
  define m where "m = (LEAST j. j < length pd \<and> arc \<in> set (pd ! j))"
  from e have "m < length pd \<and> arc \<in> set (pd ! m)"
    unfolding m_def by (rule LeastI_ex)
  moreover have "\<forall>l < m. arc \<notin> set (pd ! l)"
  proof (intro allI impI notI)
    fix l assume "l < m" and "arc \<in> set (pd ! l)"
    with calculation have "l < length pd \<and> arc \<in> set (pd ! l)"
      by simp
    then have "m \<le> l"
      unfolding m_def by (rule Least_le)
    with \<open>l < m\<close> show False by simp
  qed
  ultimately show ?thesis by blast
qed

lemma get_arc_position_total:
  assumes "length (positions k) = length (pd_code k)"
  shows "\<exists>r. get_arc_position k arc = Inr r \<and>
           (r = None) = (\<forall>c \<in> set (pd_code k). arc \<notin> set c)"
proof (cases "\<exists>c \<in> set (pd_code k). arc \<in> set c")
  case True
  from first_crossing_exists [OF True] obtain j where j: "j < length (pd_code k)"
    "arc \<in> set (pd_code k ! j)" "\<forall>l < j. arc \<notin> set (pd_code k ! l)"
    by blast
  from arc_position_from_first [OF j, of 0 "positions k"] j(1) assms True
  show ?thesis
    by (auto simp: get_arc_position_def item_def bind_def)
next
  case False
  then have "\<forall>c \<in> set (pd_code k). arc \<notin> set c"
    by simp
  from arc_position_from_none [OF this] this show ?thesis
    by (simp add: get_arc_position_def)
qed

lemma collect_points_map_filter:
  assumes "\<forall>a. get_arc_position k a = Inr (f a)"
  shows "collect_points k arcs = Inr (List.map_filter f arcs)"
  using assms by (induction arcs) (auto simp: bind_def List.map_filter_simps split: option.splits)

text \<open>
  Claim C6.  For a knot instance \<open>k\<close> that the constructor returns and an identifier
  \<open>arc\<close>: when crossing \<open>i\<close> is the first crossing of the PD code that contains \<open>arc\<close>,
  \<open>get_arc_position\<close> returns the position of crossing \<open>i\<close>; when no crossing contains
  \<open>arc\<close> it returns \<open>None\<close>.  The point sequence of \<open>draw\<close> is the sequence of the
  positions of the arcs of the path, in the order of the path, with the arcs left out for
  which \<open>get_arc_position\<close> returns \<open>None\<close>, and these are the arcs that are in no
  crossing.
\<close>

theorem arc_position_first_crossing:
  assumes "Knot ord np nm pd = Inr k" and "numpy_ok np"
  shows "(\<forall>i. i < length pd \<and> arc \<in> set (pd ! i) \<and> (\<forall>j < i. arc \<notin> set (pd ! j)) \<longrightarrow>
            get_arc_position k arc = Inr (Some (positions k ! i))) \<and>
         ((\<forall>c \<in> set pd. arc \<notin> set c) \<longrightarrow> get_arc_position k arc = Inr None) \<and>
         (\<exists>f. (\<forall>a. get_arc_position k a = Inr (f a)) \<and>
              (\<forall>a. (f a = None) = (\<forall>c \<in> set pd. a \<notin> set c)) \<and>
              draw_points k = Inr (List.map_filter f (path k)))"
proof -
  from Knot_Inr [OF assms(1)] have pd: "pd_code k = pd"
    and ps: "positions k = calculate_positions np (length pd)"
    by auto
  from ps assms(2) have len: "length (positions k) = length (pd_code k)"
    by (simp add: pd length_calculate_positions)
  have first: "\<forall>i. i < length pd \<and> arc \<in> set (pd ! i) \<and> (\<forall>j < i. arc \<notin> set (pd ! j)) \<longrightarrow>
      get_arc_position k arc = Inr (Some (positions k ! i))"
  proof (intro allI impI)
    fix i assume a: "i < length pd \<and> arc \<in> set (pd ! i) \<and> (\<forall>j < i. arc \<notin> set (pd ! j))"
    then have "arc_position_from 0 pd (positions k) arc =
        bind (item (positions k) (0 + i)) (\<lambda>pos. Inr (Some pos))"
      by (intro arc_position_from_first) simp_all
    with a len pd show "get_arc_position k arc = Inr (Some (positions k ! i))"
      by (simp add: get_arc_position_def item_def bind_def)
  qed
  have none: "(\<forall>c \<in> set pd. arc \<notin> set c) \<longrightarrow> get_arc_position k arc = Inr None"
    by (simp add: get_arc_position_def pd arc_position_from_none)
  have "\<forall>a. \<exists>r. get_arc_position k a = Inr r \<and> (r = None) = (\<forall>c \<in> set pd. a \<notin> set c)"
    using get_arc_position_total [OF len] pd by simp
  then obtain f where f: "\<forall>a. get_arc_position k a = Inr (f a) \<and>
      (f a = None) = (\<forall>c \<in> set pd. a \<notin> set c)"
    by metis
  then have "draw_points k = Inr (List.map_filter f (path k))"
    by (simp add: draw_points_def collect_points_map_filter)
  with f first none show ?thesis
    by blast
qed


theorem arc_position_first_crossing_witness:
  "Knot insertion_order index_numpy ''Example'' [[1, 2, 3, 4], [3, 4, 5, 6]] =
     Inr \<lparr>name = ''Example'', pd_code = [[1, 2, 3, 4], [3, 4, 5, 6]], crossings = 2,
          graph = [(1, [2, 4, 3]), (2, [1, 3, 4]), (3, [2, 4, 1, 6, 5]),
                   (4, [3, 1, 2, 5, 6]), (5, [4, 6, 3]), (6, [5, 3, 4])],
          positions = [(0, 0), (1, 1)], path = [1, 2, 3, 4, 5, 6]\<rparr> \<and>
   numpy_ok index_numpy \<and>
   get_arc_position (\<lparr>name = ''Example'', pd_code = [[1, 2, 3, 4], [3, 4, 5, 6]], crossings = 2,
          graph = [(1, [2, 4, 3]), (2, [1, 3, 4]), (3, [2, 4, 1, 6, 5]),
                   (4, [3, 1, 2, 5, 6]), (5, [4, 6, 3]), (6, [5, 3, 4])],
          positions = [(0, 0), (1, 1)], path = [1, 2, 3, 4, 5, 6]\<rparr> :: int knot) 5 = Inr (Some (1, 1)) \<and>
   get_arc_position (\<lparr>name = ''Example'', pd_code = [[1, 2, 3, 4], [3, 4, 5, 6]], crossings = 2,
          graph = [(1, [2, 4, 3]), (2, [1, 3, 4]), (3, [2, 4, 1, 6, 5]),
                   (4, [3, 1, 2, 5, 6]), (5, [4, 6, 3]), (6, [5, 3, 4])],
          positions = [(0, 0), (1, 1)], path = [1, 2, 3, 4, 5, 6]\<rparr> :: int knot) 9 = Inr None"
proof -
  let ?pd = "[[1, 2, 3, 4], [3, 4, 5, 6]] :: pd_code"
  let ?k = "\<lparr>name = ''Example'', pd_code = ?pd, crossings = 2,
          graph = [(1, [2, 4, 3]), (2, [1, 3, 4]), (3, [2, 4, 1, 6, 5]),
                   (4, [3, 1, 2, 5, 6]), (5, [4, 6, 3]), (6, [5, 3, 4])],
          positions = [(0, 0), (1, 1)], path = [1, 2, 3, 4, 5, 6]\<rparr> :: int knot"
  have k: "Knot insertion_order index_numpy ''Example'' ?pd = Inr ?k"
    by code_simp
  have five: "(1 :: nat) < length ?pd \<and> 5 \<in> set (?pd ! 1) \<and> (\<forall>j < 1. 5 \<notin> set (?pd ! j))"
    by simp
  have nine: "\<forall>c \<in> set ?pd. 9 \<notin> set c"
    by simp
  from arc_position_first_crossing [OF k numpy_ok_index_numpy, of 5] five
  have "get_arc_position ?k 5 = Inr (Some (positions ?k ! 1))"
    by blast
  moreover from arc_position_first_crossing [OF k numpy_ok_index_numpy, of 9] nine
  have "get_arc_position ?k 9 = Inr None"
    by blast
  ultimately show ?thesis
    using k numpy_ok_index_numpy by simp
qed

lemma adj_add_six_cong:
  "\<forall>k. adj g k = adj h k \<Longrightarrow> adj (add_six g c) k = adj (add_six h c) k"
  by (simp add: add_six_def adj_add_edge)

lemma adj_fold_cong:
  "\<forall>k. adj g k = adj h k \<Longrightarrow>
   adj (fold (\<lambda>c h. add_six h c) pd g) k = adj (fold (\<lambda>c h. add_six h c) pd h) k"
proof (induction pd arbitrary: g h k)
  case Nil
  then show ?case by simp
next
  case (Cons c pd)
  from Cons.prems have "\<forall>k. adj (add_six g c) k = adj (add_six h c) k"
    using adj_add_six_cong by blast
  from Cons.IH [OF this] show ?case
    by simp
qed

lemma build_graph_adj_any_order:
  assumes "build_graph ord1 pd = Inr g1" and "build_graph ord2 pd = Inr g2"
  shows "adj g1 k = adj g2 k"
proof -
  have "\<forall>k. adj (add_nodes_from [] (ord1 (all_arcs pd))) k =
      adj (add_nodes_from [] (ord2 (all_arcs pd))) k"
    by (simp add: adj_add_nodes_from)
  from adj_fold_cong [OF this] build_graph_Inr(2) [OF assms(1)] build_graph_Inr(2) [OF assms(2)]
  show ?thesis
    by simp
qed

lemma walk_cong:
  "\<forall>u. neighbors g u = neighbors h u \<Longrightarrow> walk g V P c = walk h V P c"
proof (induction g V P c rule: walk.induct)
  case (1 g V P c)
  from "1.prems" have n: "neighbors h c = neighbors g c"
    by simp
  show ?case
  proof (cases "neighbors g c")
    case (Inl e)
    with n show ?thesis
      by (simp add: walk.simps [of g] walk.simps [of h])
  next
    case (Inr nbrs)
    show ?thesis
    proof (cases "filter (\<lambda>n. n \<notin> V) nbrs")
      case Nil
      with Inr n show ?thesis
        by (simp add: walk.simps [of g V P c] walk.simps [of h V P c])
    next
      case (Cons x rest)
      from "1.IH" [OF Inr Cons "1.prems"]
      have "walk g (insert x V) (P @ [x]) x = walk h (insert x V) (P @ [x]) x" .
      with Inr n Cons show ?thesis
        by (simp add: walk.simps [of g V P c] walk.simps [of h V P c])
    qed
  qed
qed

lemma trace_path_cong:
  assumes "\<forall>u. neighbors g u = neighbors h u" and "nodes g \<noteq> []" and "nodes h \<noteq> []"
    and "hd (nodes g) = hd (nodes h)"
  shows "trace_path g = trace_path h"
proof -
  from assms(1) have "close_path g = close_path h"
    by (simp add: close_path_def fun_eq_iff)
  with assms walk_cong [OF assms(1)] show ?thesis
    by (auto simp: trace_path_def split: list.splits)
qed

subsection \<open>Constructing a knot twice\<close>

text \<open>
  Claim C7.  Two knot instances constructed from the same PD code have graphs with the
  same node set and the same edge set, and the same position sequence; this holds for any
  two iteration orders of the set of arcs.  Their paths are equal when the two graphs have
  the same first node, since the neighbour lists do not depend on the order of the nodes.
  With one and the same iteration order, as in one run of the program, the graphs and the
  paths are equal, and with the same name the instances are.
\<close>

theorem knot_construction_repeatable:
  assumes "set_iteration ord1" and "set_iteration ord2"
    and "Knot ord1 np nm1 pd = Inr k1" and "Knot ord2 np nm2 pd = Inr k2"
  shows "set (nodes (graph k1)) = set (nodes (graph k2)) \<and>
         edges (graph k1) = edges (graph k2) \<and>
         positions k1 = positions k2 \<and>
         (hd (nodes (graph k1)) = hd (nodes (graph k2)) \<longrightarrow> path k1 = path k2) \<and>
         (ord1 = ord2 \<longrightarrow> graph k1 = graph k2 \<and> path k1 = path k2 \<and>
            (nm1 = nm2 \<longrightarrow> k1 = k2))"
proof -
  from Knot_Inr [OF assms(3)] obtain g1 p1 where g1: "build_graph ord1 pd = Inr g1"
    and p1: "trace_path g1 = Inr p1"
    and k1: "k1 = \<lparr>name = nm1, pd_code = pd, crossings = length pd, graph = g1,
                positions = calculate_positions np (length pd), path = p1\<rparr>"
    by blast
  from Knot_Inr [OF assms(4)] obtain g2 p2 where g2: "build_graph ord2 pd = Inr g2"
    and p2: "trace_path g2 = Inr p2"
    and k2: "k2 = \<lparr>name = nm2, pd_code = pd, crossings = length pd, graph = g2,
                positions = calculate_positions np (length pd), path = p2\<rparr>"
    by blast
  have ns: "set (nodes g1) = set (nodes g2)"
    using build_graph_node_set [OF g1 assms(1)] build_graph_node_set [OF g2 assms(2)] by simp
  have es: "edges g1 = edges g2"
    using build_graph_edges [OF g1] build_graph_edges [OF g2] by simp
  have nb: "\<forall>u. neighbors g1 u = neighbors g2 u"
    using ns build_graph_adj_any_order [OF g1 g2] by (simp add: neighbors_adj)
  from p1 p2 have ne: "nodes g1 \<noteq> []" "nodes g2 \<noteq> []"
    by (auto simp: trace_path_def)
  have same_start: "hd (nodes g1) = hd (nodes g2) \<longrightarrow> p1 = p2"
    using trace_path_cong [OF nb ne] p1 p2 by auto
  have same_ord: "ord1 = ord2 \<longrightarrow> g1 = g2 \<and> p1 = p2"
    using g1 g2 p1 p2 by auto
  from ns es same_start same_ord show ?thesis
    unfolding k1 k2 by simp
qed

theorem knot_construction_repeatable_witness:
  "set_iteration insertion_order \<and> set_iteration rev \<and>
   Knot insertion_order index_numpy ''A'' [[1, 2, 3, 4], [3, 4, 5, 6]] =
     Inr \<lparr>name = ''A'', pd_code = [[1, 2, 3, 4], [3, 4, 5, 6]], crossings = 2,
          graph = [(1, [2, 4, 3]), (2, [1, 3, 4]), (3, [2, 4, 1, 6, 5]),
                   (4, [3, 1, 2, 5, 6]), (5, [4, 6, 3]), (6, [5, 3, 4])],
          positions = [(0, 0), (1, 1)], path = [1, 2, 3, 4, 5, 6]\<rparr> \<and>
   Knot rev index_numpy ''B'' [[1, 2, 3, 4], [3, 4, 5, 6]] =
     Inr \<lparr>name = ''B'', pd_code = [[1, 2, 3, 4], [3, 4, 5, 6]], crossings = 2,
          graph = [(6, [5, 3, 4]), (5, [4, 6, 3]), (4, [3, 1, 2, 5, 6]),
                   (3, [2, 4, 1, 6, 5]), (2, [1, 3, 4]), (1, [2, 4, 3])],
          positions = [(0, 0), (1, 1)], path = [6, 5, 4, 3, 2, 1]\<rparr> \<and>
   edges [(1, [2, 4, 3]), (2, [1, 3, 4]), (3, [2, 4, 1, 6, 5]),
          (4, [3, 1, 2, 5, 6]), (5, [4, 6, 3]), (6, [5, 3, 4])] =
   edges [(6, [5, 3, 4]), (5, [4, 6, 3]), (4, [3, 1, 2, 5, 6]),
          (3, [2, 4, 1, 6, 5]), (2, [1, 3, 4]), (1, [2, 4, 3])]"
proof -
  have r: "set_iteration rev"
    by (simp add: set_iteration_def)
  have a: "Knot insertion_order index_numpy ''A'' [[1, 2, 3, 4], [3, 4, 5, 6]] =
     Inr \<lparr>name = ''A'', pd_code = [[1, 2, 3, 4], [3, 4, 5, 6]], crossings = 2,
          graph = [(1, [2, 4, 3]), (2, [1, 3, 4]), (3, [2, 4, 1, 6, 5]),
                   (4, [3, 1, 2, 5, 6]), (5, [4, 6, 3]), (6, [5, 3, 4])],
          positions = [(0, 0), (1, 1)], path = [1, 2, 3, 4, 5, 6]\<rparr>"
    by code_simp
  have b: "Knot rev index_numpy ''B'' [[1, 2, 3, 4], [3, 4, 5, 6]] =
     Inr \<lparr>name = ''B'', pd_code = [[1, 2, 3, 4], [3, 4, 5, 6]], crossings = 2,
          graph = [(6, [5, 3, 4]), (5, [4, 6, 3]), (4, [3, 1, 2, 5, 6]),
                   (3, [2, 4, 1, 6, 5]), (2, [1, 3, 4]), (1, [2, 4, 3])],
          positions = [(0, 0), (1, 1)], path = [6, 5, 4, 3, 2, 1]\<rparr>"
    by code_simp
  from knot_construction_repeatable [OF set_iteration_insertion_order r a b]
    set_iteration_insertion_order r a b
  show ?thesis
    by simp
qed

subsection \<open>Generating a pair of knots\<close>

lemma Knot_returns:
  assumes "pd \<noteq> []" and "\<forall>c \<in> set pd. 4 \<le> length c"
  shows "\<exists>g p. build_graph ord pd = Inr g \<and> trace_path g = Inr p \<and>
           Knot ord np nm pd =
             Inr \<lparr>name = nm, pd_code = pd, crossings = length pd, graph = g,
                  positions = calculate_positions np (length pd), path = p\<rparr>"
proof -
  from build_graph_long [OF assms(2)] obtain g where g: "build_graph ord pd = Inr g"
    by blast
  from trace_path_returns [OF build_graph_closed [OF g] build_graph_nonempty [OF g assms(1)]]
  obtain p where p: "trace_path g = Inr p"
    by blast
  from g p show ?thesis
    by (simp add: Knot_def bind_def)
qed

lemma dataset_valid:
  "\<forall>(nm, pd) \<in> set KNOT_DEFINITIONS. pd \<noteq> [] \<and> (\<forall>c \<in> set pd. length c = 4 \<and> distinct c)"
  by (simp add: KNOT_DEFINITIONS_def)

lemma dataset_names: "distinct (map fst KNOT_DEFINITIONS) \<and> ''Unknot'' \<in> set (map fst KNOT_DEFINITIONS)"
  by (simp add: KNOT_DEFINITIONS_def sub_digit_def)

lemma knot_types_remove: "list_remove (map fst KNOT_DEFINITIONS) ''Unknot'' = Inr knot_types"
  using dataset_names by (simp add: list_remove_def knot_types_def)

lemma knot_types_facts:
  "distinct knot_types \<and> length knot_types = length KNOT_DEFINITIONS - 1 \<and>
   set knot_types = set (map fst KNOT_DEFINITIONS) - {''Unknot''}"
  using dataset_names by (simp add: knot_types_def length_remove1)

lemma knot_type_builds:
  assumes "nm \<in> set knot_types"
  shows "\<exists>pd k. dict_get KNOT_DEFINITIONS nm = Inr pd \<and> Knot ord np nm pd = Inr k \<and>
           name k = nm \<and> pd_code k = pd \<and> nm \<noteq> ''Unknot''"
proof -
  from assms knot_types_facts have n: "nm \<in> set (map fst KNOT_DEFINITIONS)" and u: "nm \<noteq> ''Unknot''"
    by auto
  from n obtain pd where m: "(nm, pd) \<in> set KNOT_DEFINITIONS"
    by auto
  with dataset_names have "map_of KNOT_DEFINITIONS nm = Some pd"
    by simp
  then have d: "dict_get KNOT_DEFINITIONS nm = Inr pd"
    by (simp add: dict_get_def)
  from m dataset_valid have "pd \<noteq> []" and "\<forall>c \<in> set pd. 4 \<le> length c"
    by auto
  from Knot_returns [OF this, of ord np nm] d u show ?thesis
    by auto
qed

text \<open>
  Claim C9.  For all legal random draws \<open>generate_knot_pair\<close> returns two knot
  instances and a flag, and the flag is the drawn element of \<open>[True, False]\<close>.  When it
  is true, both instances are one and the same knot, built from the drawn name of
  \<open>knot_types\<close> and the PD code of that name.  When it is false, the two instances have
  the two sampled names of \<open>knot_types\<close>, which lie at different indices of the list and
  are different.  In both cases the names are names of the dataset other than \<open>Unknot\<close>,
  and each instance has the PD code that the dataset gives for its name.
\<close>

theorem generate_knot_pair_branches:
  assumes "legal_draws d"
  shows "\<exists>knot1 knot2 equivalent.
           generate_knot_pair ord np d = Inr (knot1, knot2, equivalent) \<and>
           equivalent = ([True, False] ! drawn_equivalent d) \<and>
           (equivalent \<longrightarrow> name knot1 = knot_types ! drawn_type d \<and> knot2 = knot1) \<and>
           (\<not> equivalent \<longrightarrow>
              name knot1 = knot_types ! fst (drawn_sample d) \<and>
              name knot2 = knot_types ! snd (drawn_sample d) \<and>
              name knot1 \<noteq> name knot2) \<and>
           name knot1 \<in> set (map fst KNOT_DEFINITIONS) - {''Unknot''} \<and>
           name knot2 \<in> set (map fst KNOT_DEFINITIONS) - {''Unknot''} \<and>
           dict_get KNOT_DEFINITIONS (name knot1) = Inr (pd_code knot1) \<and>
           dict_get KNOT_DEFINITIONS (name knot2) = Inr (pd_code knot2)"
proof -
  let ?n = "length knot_types"
  from assms knot_types_facts have e: "drawn_equivalent d < 2" and t: "drawn_type d < ?n"
    and i: "fst (drawn_sample d) < ?n" and j: "snd (drawn_sample d) < ?n"
    and ij: "fst (drawn_sample d) \<noteq> snd (drawn_sample d)"
    by (simp_all add: legal_draws_def Let_def)
  from e have flag: "choice [True, False] (drawn_equivalent d) = Inr ([True, False] ! drawn_equivalent d)"
    by (simp add: choice_def item_def)
  have mem: "\<And>l. l < ?n \<Longrightarrow> knot_types ! l \<in> set (map fst KNOT_DEFINITIONS) - {''Unknot''}"
    using knot_types_facts nth_mem by blast
  show ?thesis
  proof (cases "[True, False] ! drawn_equivalent d")
    case True
    let ?t = "knot_types ! drawn_type d"
    from t have c: "choice knot_types (drawn_type d) = Inr ?t"
      by (simp add: choice_def item_def)
    from t have "?t \<in> set knot_types"
      by simp
    from knot_type_builds [OF this, of ord np] obtain pd k
      where b: "dict_get KNOT_DEFINITIONS ?t = Inr pd" "Knot ord np ?t pd = Inr k"
        "name k = ?t" "pd_code k = pd"
      by blast
    from True flag c b knot_types_remove
    have "generate_knot_pair ord np d = Inr (k, k, True)"
      by (simp add: generate_knot_pair_def bind_def)
    with True b mem [OF t] show ?thesis
      by (intro exI [of _ k] exI [of _ True]) simp
  next
    case False
    let ?a = "knot_types ! fst (drawn_sample d)" and ?b = "knot_types ! snd (drawn_sample d)"
    from i j ij have "\<not> length knot_types < 2"
      by arith
    with i j have s: "sample2 knot_types (drawn_sample d) = Inr (?a, ?b)"
      by (simp add: sample2_def item_def bind_def)
    from i j ij knot_types_facts have ne: "?a \<noteq> ?b"
      by (simp add: nth_eq_iff_index_eq)
    from i have "?a \<in> set knot_types"
      by simp
    from knot_type_builds [OF this, of ord np] obtain pd1 k1
      where b1: "dict_get KNOT_DEFINITIONS ?a = Inr pd1" "Knot ord np ?a pd1 = Inr k1"
        "name k1 = ?a" "pd_code k1 = pd1"
      by blast
    from j have "?b \<in> set knot_types"
      by simp
    from knot_type_builds [OF this, of ord np] obtain pd2 k2
      where b2: "dict_get KNOT_DEFINITIONS ?b = Inr pd2" "Knot ord np ?b pd2 = Inr k2"
        "name k2 = ?b" "pd_code k2 = pd2"
      by blast
    from False flag s b1 b2 knot_types_remove
    have "generate_knot_pair ord np d = Inr (k1, k2, False)"
      by (simp add: generate_knot_pair_def bind_def)
    with False b1 b2 ne mem [OF i] mem [OF j] show ?thesis
      by (intro exI [of _ k1] exI [of _ k2] exI [of _ False]) simp
  qed
qed

theorem generate_knot_pair_branches_witness:
  "legal_draws \<lparr>drawn_equivalent = 0, drawn_type = 0, drawn_sample = (0, 1)\<rparr> \<and>
   (\<exists>knot1 knot2.
      generate_knot_pair insertion_order index_numpy
        \<lparr>drawn_equivalent = 0, drawn_type = 0, drawn_sample = (0, 1)\<rparr> = Inr (knot1, knot2, True) \<and>
      name knot1 = ''Trefoil'' \<and> knot2 = knot1) \<and>
   legal_draws \<lparr>drawn_equivalent = 1, drawn_type = 0, drawn_sample = (0, 1)\<rparr> \<and>
   (\<exists>knot1 knot2.
      generate_knot_pair insertion_order index_numpy
        \<lparr>drawn_equivalent = 1, drawn_type = 0, drawn_sample = (0, 1)\<rparr> = Inr (knot1, knot2, False) \<and>
      name knot1 = ''Trefoil'' \<and> name knot2 = ''FigureEight'')"
proof -
  let ?d1 = "\<lparr>drawn_equivalent = 0, drawn_type = 0, drawn_sample = (0, 1)\<rparr>"
  let ?d2 = "\<lparr>drawn_equivalent = 1, drawn_type = 0, drawn_sample = (0, 1)\<rparr>"
  have l1: "legal_draws ?d1" and l2: "legal_draws ?d2"
    by (simp_all add: legal_draws_def KNOT_DEFINITIONS_def)
  have n: "knot_types ! 0 = ''Trefoil''" "knot_types ! 1 = ''FigureEight''"
    by (simp_all add: knot_types_def KNOT_DEFINITIONS_def)
  from generate_knot_pair_branches [OF l1, of insertion_order index_numpy] n
  have a: "\<exists>knot1 knot2. generate_knot_pair insertion_order index_numpy ?d1 = Inr (knot1, knot2, True) \<and>
      name knot1 = ''Trefoil'' \<and> knot2 = knot1"
    by auto
  from generate_knot_pair_branches [OF l2, of insertion_order index_numpy] n
  have b: "\<exists>knot1 knot2. generate_knot_pair insertion_order index_numpy ?d2 = Inr (knot1, knot2, False) \<and>
      name knot1 = ''Trefoil'' \<and> name knot2 = ''FigureEight''"
    by auto
  from l1 l2 a b show ?thesis
    by blast
qed

subsection \<open>The graphs of the dataset\<close>

lemma mem_adj_add_edge:
  "(b \<in> set (adj (add_edge g u v) a)) = (b \<in> set (adj g a) \<or> (a, b) = (u, v) \<or> (a, b) = (v, u))"
  by (auto simp: adj_add_edge put_nbr_def Let_def split: if_splits)

lemma pairs_add_six:
  "(b \<in> set (adj (add_six g c) a)) = (b \<in> set (adj g a) \<or> (a, b) \<in> crossing_pairs c)"
  by (simp add: add_six_def mem_adj_add_edge crossing_pairs_def)

lemma pairs_fold:
  "(b \<in> set (adj (fold (\<lambda>c h. add_six h c) pd g) a)) =
     (b \<in> set (adj g a) \<or> (\<exists>c \<in> set pd. (a, b) \<in> crossing_pairs c))"
proof (induction pd arbitrary: g)
  case Nil
  then show ?case by simp
next
  case (Cons c pd)
  have "(b \<in> set (adj (fold (\<lambda>c h. add_six h c) (c # pd) g) a)) =
      (b \<in> set (adj (add_six g c) a) \<or> (\<exists>c \<in> set pd. (a, b) \<in> crossing_pairs c))"
    using Cons.IH [of "add_six g c"] by simp
  also have "\<dots> = (b \<in> set (adj g a) \<or> (a, b) \<in> crossing_pairs c \<or>
      (\<exists>c \<in> set pd. (a, b) \<in> crossing_pairs c))"
    by (simp only: pairs_add_six disj_assoc)
  also have "\<dots> = (b \<in> set (adj g a) \<or> (\<exists>c' \<in> set (c # pd). (a, b) \<in> crossing_pairs c'))"
    by (simp only: list.set bex_simps ball_simps Bex_def) blast
  finally show ?case .
qed

lemma build_graph_pairs:
  assumes "build_graph ord pd = Inr g"
  shows "(v \<in> set (adj g u)) = (\<exists>c \<in> set pd. (u, v) \<in> crossing_pairs c)"
  using pairs_fold [of v pd "add_nodes_from [] (ord (all_arcs pd))" u] build_graph_Inr(2) [OF assms]
  by (simp add: adj_add_nodes_from adj_empty)

lemma crossing_pairs_four:
  assumes "length c = 4" and "distinct c"
  shows "((u, v) \<in> crossing_pairs c) = (u \<in> set c \<and> v \<in> set c \<and> u \<noteq> v)"
proof -
  from assms(1) obtain a b c' d where c: "c = [a, b, c', d]"
    using four_list by blast
  from assms(2) show ?thesis
    unfolding c crossing_pairs_def by auto
qed

lemma disjoint_pd_facts:
  assumes "disjoint_pd pd"
  shows "\<forall>c \<in> set pd. length c = 4 \<and> distinct c"
    and "\<forall>c \<in> set pd. \<forall>c' \<in> set pd. c \<noteq> c' \<longrightarrow> set c \<inter> set c' = {}"
    and "distinct pd"
proof -
  from assms have l: "\<forall>c \<in> set pd. length c = 4" and d: "distinct (concat pd)"
    by (simp_all add: disjoint_pd_def)
  from d have i: "distinct (removeAll [] pd)" "\<forall>ys. ys \<in> set pd \<longrightarrow> distinct ys"
    "\<forall>ys zs. ys \<in> set pd \<and> zs \<in> set pd \<and> ys \<noteq> zs \<longrightarrow> set ys \<inter> set zs = {}"
    by (simp_all add: distinct_concat_iff)
  from l i(2) show "\<forall>c \<in> set pd. length c = 4 \<and> distinct c"
    by simp
  from i(3) show "\<forall>c \<in> set pd. \<forall>c' \<in> set pd. c \<noteq> c' \<longrightarrow> set c \<inter> set c' = {}"
    by blast
  from l have "[] \<notin> set pd"
    by auto
  with i(1) show "distinct pd"
    by (simp add: removeAll_id)
qed

lemma disjoint_pd_adj:
  assumes "disjoint_pd pd" and "build_graph ord pd = Inr g" and "c \<in> set pd" and "u \<in> set c"
  shows "set (adj g u) = set c - {u}"
proof (intro set_eqI iffI)
  fix v assume "v \<in> set (adj g u)"
  then obtain c' where c': "c' \<in> set pd" and p: "(u, v) \<in> crossing_pairs c'"
    using build_graph_pairs [OF assms(2)] by blast
  from c' disjoint_pd_facts(1) [OF assms(1)] have "length c' = 4" and "distinct c'"
    by auto
  from crossing_pairs_four [OF this] p have m: "u \<in> set c'" "v \<in> set c'" "u \<noteq> v"
    by auto
  have "c' = c"
  proof (rule ccontr)
    assume "c' \<noteq> c"
    with disjoint_pd_facts(2) [OF assms(1)] c' assms(3) have "set c' \<inter> set c = {}"
      by blast
    with m(1) assms(4) show False
      by blast
  qed
  with m show "v \<in> set c - {u}"
    by simp
next
  fix v assume "v \<in> set c - {u}"
  then have v: "v \<in> set c" "u \<noteq> v"
    by auto
  from assms(3) disjoint_pd_facts(1) [OF assms(1)] have "length c = 4" and "distinct c"
    by auto
  from crossing_pairs_four [OF this] v assms(4) have "(u, v) \<in> crossing_pairs c"
    by simp
  with assms(3) show "v \<in> set (adj g u)"
    using build_graph_pairs [OF assms(2)] by blast
qed

lemma successively_stays:
  "successively (is_edge g) w \<Longrightarrow> w \<noteq> [] \<Longrightarrow> hd w \<in> C \<Longrightarrow>
   \<forall>a \<in> C. \<forall>b. is_edge g a b \<longrightarrow> b \<in> C \<Longrightarrow> set w \<subseteq> C"
proof (induction w)
  case Nil
  then show ?case by simp
next
  case (Cons x w)
  show ?case
  proof (cases w)
    case Nil
    with Cons.prems show ?thesis by simp
  next
    case (Cons y w')
    with Cons.prems have "is_edge g x y" and "successively (is_edge g) w" and "x \<in> C"
      by simp_all
    with Cons.prems(4) have "y \<in> C"
      by blast
    with Cons \<open>successively (is_edge g) w\<close> Cons.IH Cons.prems(4) have "set w \<subseteq> C"
      by simp
    with \<open>x \<in> C\<close> show ?thesis
      by simp
  qed
qed

lemma reachable_stays:
  assumes "reachable g u v" and "u \<in> C" and "\<forall>a \<in> C. \<forall>b. is_edge g a b \<longrightarrow> b \<in> C"
  shows "v \<in> C"
proof -
  from assms(1) have "(u, v) \<in> {(a, b). is_edge g a b}\<^sup>*"
    by (simp add: reachable_def)
  then show ?thesis
    using assms(2,3) by (induction rule: rtrancl_induct) auto
qed

lemma disjoint_pd_closed_component:
  assumes "disjoint_pd pd" and "build_graph ord pd = Inr g" and "c \<in> set pd"
  shows "\<forall>a \<in> set c. \<forall>b. is_edge g a b \<longrightarrow> b \<in> set c"
proof (intro ballI allI impI)
  fix a b assume "a \<in> set c" and "is_edge g a b"
  with disjoint_pd_adj [OF assms, of a] show "b \<in> set c"
    by (auto simp: is_edge_adj)
qed

lemma disjoint_pd_trace:
  assumes "disjoint_pd pd" and "pd \<noteq> []" and "set_iteration ord"
    and "build_graph ord pd = Inr g"
  shows "\<exists>c \<in> set pd. \<exists>w. hd (nodes g) \<in> set c \<and>
           walk g {hd (nodes g)} [hd (nodes g)] (hd (nodes g)) = Inr w \<and>
           set w = set c \<and> distinct w \<and> length w = 4 \<and> trace_path g = Inr (w @ [hd w])"
proof -
  let ?s = "hd (nodes g)"
  from build_graph_nonempty [OF assms(4,2)] have ne: "nodes g \<noteq> []" .
  then have "?s \<in> set (nodes g)"
    by simp
  with build_graph_node_set [OF assms(4,3)] obtain c where c: "c \<in> set pd" and sc: "?s \<in> set c"
    by auto
  from trace_path_returns [OF build_graph_closed [OF assms(4)] ne] obtain w
    where w: "walk g {?s} [?s] ?s = Inr w"
      and t: "trace_path g = Inr (if is_edge g (last w) (hd w) then w @ [hd w] else w)"
    by blast
  from walk_start [OF w] have i: "w \<noteq> []" "hd w = ?s" "distinct w" "successively (is_edge g) w"
    "last w \<in> set (nodes g)" "set (adj g (last w)) \<subseteq> set w"
    by auto
  from successively_stays [OF i(4) i(1) _ disjoint_pd_closed_component [OF assms(1,4) c]] i(2) sc
  have sub: "set w \<subseteq> set c"
    by simp
  from i(1) have lw: "last w \<in> set w"
    by simp
  with sub have "last w \<in> set c"
    by blast
  from disjoint_pd_adj [OF assms(1,4) c this] i(6) lw have "set c \<subseteq> set w"
    by blast
  with sub have eq: "set w = set c"
    by blast
  from c disjoint_pd_facts(1) [OF assms(1)] have "length c = 4" and "distinct c"
    by auto
  then have "card (set c) = 4"
    by (simp add: distinct_card)
  with eq i(3) have len: "length w = 4"
    using distinct_card [of w] by simp
  then have "hd w = w ! 0" and "last w = w ! 3"
    using i(1) by (simp_all add: hd_conv_nth last_conv_nth)
  with i(3) len have "hd w \<noteq> last w"
    by (simp add: nth_eq_iff_index_eq)
  moreover from i(1) eq have "hd w \<in> set c"
    by (metis hd_in_set)
  ultimately have "hd w \<in> set (adj g (last w))"
    using disjoint_pd_adj [OF assms(1,4) c \<open>last w \<in> set c\<close>] by simp
  with i(5) have "is_edge g (last w) (hd w)"
    by (simp add: is_edge_adj)
  with t have "trace_path g = Inr (w @ [hd w])"
    by simp
  with c sc w eq i(3) len show ?thesis
    by blast
qed

lemma disjoint_pd_disconnected:
  assumes "disjoint_pd pd" and "2 \<le> length pd" and "set_iteration ord"
    and "build_graph ord pd = Inr g"
  shows "\<not> connected g"
proof
  assume con: "connected g"
  let ?c = "pd ! 0" and ?d = "pd ! 1"
  from assms(2) have l: "0 < length pd" "1 < length pd"
    by arith+
  then have m: "?c \<in> set pd" "?d \<in> set pd"
    by (simp_all only: nth_mem)
  from l nth_eq_iff_index_eq [OF disjoint_pd_facts(3) [OF assms(1)], of 0 1] have "?c \<noteq> ?d"
    by simp
  with m disjoint_pd_facts(2) [OF assms(1)] have dis: "set ?c \<inter> set ?d = {}"
    by blast
  from m disjoint_pd_facts(1) [OF assms(1)] have "?c \<noteq> []" "?d \<noteq> []"
    by auto
  then have h: "hd ?c \<in> set ?c" "hd ?d \<in> set ?d"
    by simp_all
  with m build_graph_node_set [OF assms(4,3)] have "hd ?c \<in> set (nodes g)" "hd ?d \<in> set (nodes g)"
    by auto
  with con have "reachable g (hd ?c) (hd ?d)"
    by (simp add: connected_def)
  from reachable_stays [OF this h(1) disjoint_pd_closed_component [OF assms(1,4) m(1)]]
  have "hd ?d \<in> set ?c" .
  with h(2) dis show False
    by blast
qed

lemma trace_path_in_nodes:
  assumes "trace_path g = Inr p"
  shows "set p \<subseteq> set (nodes g)"
proof -
  from trace_path_walk [OF assms] obtain w
    where w: "walk g {hd (nodes g)} [hd (nodes g)] (hd (nodes g)) = Inr w"
      and c: "close_path g w = Inr p"
    by blast
  from walk_start [OF w] have i: "w \<noteq> []" "set w \<subseteq> set (nodes g)" "last w \<in> set (nodes g)"
    by auto
  from c close_path_is_edge [OF i(3)] have "p = (if is_edge g (last w) (hd w) then w @ [hd w] else w)"
    by simp
  with i(1,2) show ?thesis
    by (auto split: if_splits)
qed

lemma knot_path_positions:
  assumes "Knot ord np nm pd = Inr k" and "set_iteration ord" and "numpy_ok np"
  shows "(\<forall>a \<in> set (nodes (graph k)). \<exists>c \<in> set pd. a \<in> set c) \<and>
         (\<forall>a \<in> set (path k). \<exists>pos. get_arc_position k a = Inr (Some pos))"
proof -
  from Knot_Inr [OF assms(1)] obtain g p where g: "build_graph ord pd = Inr g"
    and p: "trace_path g = Inr p"
    and k: "k = \<lparr>name = nm, pd_code = pd, crossings = length pd, graph = g,
                positions = calculate_positions np (length pd), path = p\<rparr>"
    by blast
  from k assms(3) have len: "length (positions k) = length (pd_code k)"
    by (simp add: length_calculate_positions)
  from build_graph_node_set [OF g assms(2)] have n: "set (nodes g) = \<Union>(set ` set pd)" .
  have "\<forall>a \<in> set p. \<exists>pos. get_arc_position k a = Inr (Some pos)"
  proof
    fix a assume "a \<in> set p"
    with trace_path_in_nodes [OF p] n have "\<exists>c \<in> set pd. a \<in> set c"
      by auto
    with get_arc_position_total [OF len, of a] k show "\<exists>pos. get_arc_position k a = Inr (Some pos)"
      by auto
  qed
  with n k show ?thesis
    by auto
qed

lemma dataset_disjoint: "\<forall>(nm, pd) \<in> set KNOT_DEFINITIONS. disjoint_pd pd"
  by (simp add: KNOT_DEFINITIONS_def disjoint_pd_def)

lemma dataset_numbering:
  "\<forall>(nm, pd) \<in> set KNOT_DEFINITIONS.
     pd = map (\<lambda>i. [4 * int i + 1, 4 * int i + 2, 4 * int i + 3, 4 * int i + 4]) [0..<length pd]"
  by (simp add: KNOT_DEFINITIONS_def upt_rec)

text \<open>
  Claim C10.  For every knot of the dataset: crossing \<open>i\<close> of its PD code has the
  identifiers \<open>4i+1, \<dots>, 4i+4\<close>, and two different crossings share no identifier.  The
  constructor returns a knot instance.  In its graph the neighbours of an identifier are
  exactly the three other identifiers of its crossing, so the graph is a disjoint union of
  complete graphs on four nodes, one for each crossing, and with two crossings or more it
  is not connected.  The traced path has five entries: the four arcs of the crossing of
  the first node, each once, and then the first arc again.  For every knot instance of
  any PD code, every node of the graph is an identifier of some crossing, and
  \<open>get_arc_position\<close> returns a position for every arc of the path.
\<close>

theorem dataset_components:
  assumes "set_iteration ord" and "numpy_ok np" and "(nm, pd) \<in> set KNOT_DEFINITIONS"
  shows "pd = map (\<lambda>i. [4 * int i + 1, 4 * int i + 2, 4 * int i + 3, 4 * int i + 4])
                [0..<length pd] \<and>
         (\<forall>c \<in> set pd. \<forall>c' \<in> set pd. c \<noteq> c' \<longrightarrow> set c \<inter> set c' = {}) \<and>
         (\<exists>k. Knot ord np nm pd = Inr k \<and>
            (\<forall>c \<in> set pd. \<forall>u \<in> set c.
               \<exists>ns. neighbors (graph k) u = Inr ns \<and> set ns = set c - {u}) \<and>
            (2 \<le> length pd \<longrightarrow> \<not> connected (graph k)) \<and>
            (\<exists>c \<in> set pd. hd (nodes (graph k)) \<in> set c \<and> set (path k) = set c \<and>
               length (path k) = 5 \<and> distinct (butlast (path k)) \<and>
               last (path k) = hd (path k))) \<and>
         (\<forall>nm' pd' k'. Knot ord np nm' pd' = Inr k' \<longrightarrow>
            (\<forall>a \<in> set (nodes (graph k')). \<exists>c \<in> set pd'. a \<in> set c) \<and>
            (\<forall>a \<in> set (path k'). \<exists>pos. get_arc_position k' a = Inr (Some pos)))"
proof -
  from assms(3) dataset_disjoint have dj: "disjoint_pd pd"
    by blast
  from assms(3) dataset_valid have ne: "pd \<noteq> []" and l: "\<forall>c \<in> set pd. 4 \<le> length c"
    by auto
  from assms(3) dataset_numbering have num: "pd =
      map (\<lambda>i. [4 * int i + 1, 4 * int i + 2, 4 * int i + 3, 4 * int i + 4]) [0..<length pd]"
    by blast
  from Knot_returns [OF ne l, of ord np nm] obtain g p where g: "build_graph ord pd = Inr g"
    and p: "trace_path g = Inr p"
    and k: "Knot ord np nm pd =
        Inr \<lparr>name = nm, pd_code = pd, crossings = length pd, graph = g,
             positions = calculate_positions np (length pd), path = p\<rparr>"
    by blast
  let ?k = "\<lparr>name = nm, pd_code = pd, crossings = length pd, graph = g,
             positions = calculate_positions np (length pd), path = p\<rparr>"
  have k4: "\<forall>c \<in> set pd. \<forall>u \<in> set c. \<exists>ns. neighbors g u = Inr ns \<and> set ns = set c - {u}"
  proof (intro ballI)
    fix c u assume c: "c \<in> set pd" and u: "u \<in> set c"
    with build_graph_node_set [OF g assms(1)] have "u \<in> set (nodes g)"
      by auto
    then have "neighbors g u = Inr (adj g u)"
      by (simp add: neighbors_adj)
    with disjoint_pd_adj [OF dj g c u] show "\<exists>ns. neighbors g u = Inr ns \<and> set ns = set c - {u}"
      by simp
  qed
  have dis: "2 \<le> length pd \<longrightarrow> \<not> connected g"
    using disjoint_pd_disconnected [OF dj _ assms(1) g] by blast
  from disjoint_pd_trace [OF dj ne assms(1) g] p obtain c w where c: "c \<in> set pd"
    and w: "hd (nodes g) \<in> set c" "set w = set c" "distinct w" "length w = 4"
      "p = w @ [hd w]"
    by auto
  from w(4) have "w \<noteq> []"
    by auto
  with w have "set p = set c \<and> length p = 5 \<and> distinct (butlast p) \<and> last p = hd p"
    by auto
  with c w(1) have tr: "\<exists>c \<in> set pd. hd (nodes g) \<in> set c \<and> set p = set c \<and>
      length p = 5 \<and> distinct (butlast p) \<and> last p = hd p"
    by blast
  have pos: "\<forall>nm' pd' k'. Knot ord np nm' pd' = Inr k' \<longrightarrow>
      (\<forall>a \<in> set (nodes (graph k')). \<exists>c \<in> set pd'. a \<in> set c) \<and>
      (\<forall>a \<in> set (path k'). \<exists>pos. get_arc_position k' a = Inr (Some pos))"
    using knot_path_positions [OF _ assms(1,2)] by blast
  have "Knot ord np nm pd = Inr ?k \<and>
      (\<forall>c \<in> set pd. \<forall>u \<in> set c.
         \<exists>ns. neighbors (graph ?k) u = Inr ns \<and> set ns = set c - {u}) \<and>
      (2 \<le> length pd \<longrightarrow> \<not> connected (graph ?k)) \<and>
      (\<exists>c \<in> set pd. hd (nodes (graph ?k)) \<in> set c \<and> set (path ?k) = set c \<and>
         length (path ?k) = 5 \<and> distinct (butlast (path ?k)) \<and>
         last (path ?k) = hd (path ?k))"
    using k k4 dis tr by simp
  then have ex: "\<exists>k. Knot ord np nm pd = Inr k \<and>
      (\<forall>c \<in> set pd. \<forall>u \<in> set c.
         \<exists>ns. neighbors (graph k) u = Inr ns \<and> set ns = set c - {u}) \<and>
      (2 \<le> length pd \<longrightarrow> \<not> connected (graph k)) \<and>
      (\<exists>c \<in> set pd. hd (nodes (graph k)) \<in> set c \<and> set (path k) = set c \<and>
         length (path k) = 5 \<and> distinct (butlast (path k)) \<and>
         last (path k) = hd (path k))"
    by (rule exI)
  from num disjoint_pd_facts(2) [OF dj] ex pos show ?thesis
    by (intro conjI)
qed

theorem dataset_components_witness:
  "set_iteration insertion_order \<and> numpy_ok index_numpy \<and>
   (''Trefoil'', [[1, 2, 3, 4], [5, 6, 7, 8], [9, 10, 11, 12]]) \<in> set KNOT_DEFINITIONS \<and>
   (\<exists>k. Knot insertion_order index_numpy ''Trefoil''
          [[1, 2, 3, 4], [5, 6, 7, 8], [9, 10, 11, 12]] = Inr k \<and>
        \<not> connected (graph k) \<and> path k = [1, 2, 3, 4, 1] \<and>
        get_arc_position k 4 = Inr (Some (0, 0)))"
proof -
  let ?pd = "[[1, 2, 3, 4], [5, 6, 7, 8], [9, 10, 11, 12]] :: pd_code"
  let ?k = "\<lparr>name = ''Trefoil'', pd_code = ?pd, crossings = 3,
        graph =
          [(1, [2, 4, 3]), (2, [1, 3, 4]), (3, [2, 4, 1]), (4, [3, 1, 2]),
           (5, [6, 8, 7]), (6, [5, 7, 8]), (7, [6, 8, 5]), (8, [7, 5, 6]),
           (9, [10, 12, 11]), (10, [9, 11, 12]), (11, [10, 12, 9]),
           (12, [11, 9, 10])],
        positions = [(0, 0), (1, 1), (2, 2)], path = [1, 2, 3, 4, 1]\<rparr> :: int knot"
  have m: "(''Trefoil'', ?pd) \<in> set KNOT_DEFINITIONS"
    by (simp add: KNOT_DEFINITIONS_def)
  have k: "Knot insertion_order index_numpy ''Trefoil'' ?pd = Inr ?k"
    by code_simp
  have g: "get_arc_position ?k 4 = Inr (Some (0, 0))"
    by code_simp
  from dataset_components [OF set_iteration_insertion_order numpy_ok_index_numpy m] k
  have "\<not> connected (graph ?k)"
    by auto
  with k g m set_iteration_insertion_order numpy_ok_index_numpy show ?thesis
    by simp
qed

end
